theory Spec2Isabelle
  imports Complex_Main
begin

section \<open>Data model\<close>

text \<open>
  A request carries \<open>processes: List[List[int]]\<close> and \<open>quantum: Optional[int]\<close>.
  Every row is read as \<open>[pid, arrival, burst, priority]\<close> (\<open>p[0]\<close> .. \<open>p[3]\<close>, and
  \<open>pid, at, bt, pri = process\<close> in \<open>fcfs\<close>), so a row is a value with these four integer
  fields; Python compares rows structurally (\<open>p not in completed\<close>), as HOL compares
  values of a datatype. Rows that do not have four fields are outside this model.
\<close>

datatype process = Process (pid: int) (arrival: int) (burst: int) (priority: int)

record Input =
  processes :: "process list"
  quantum :: "int option"

text \<open>
  An endpoint answers with the dictionary \<open>{'finish': finish, 'order': order}\<close> or, for
  Round Robin without a quantum, with \<open>{"error": ...}\<close>.
\<close>

datatype response = Schedule "int list" "int list" | Error string

text \<open>The first argument of \<open>Schedule\<close> is the \<open>finish\<close> list, the second the \<open>order\<close> list.\<close>

section \<open>Python building blocks\<close>

text \<open>
  \<open>while cond: body\<close> over a loop state. A loop that never leaves has no final
  state: the value is \<open>None\<close>.
\<close>

partial_function (option) while_loop :: "('s \<Rightarrow> bool) \<Rightarrow> ('s \<Rightarrow> 's) \<Rightarrow> 's \<Rightarrow> 's option" where
  "while_loop cond body s = (if cond s then while_loop cond body (body s) else Some s)"

declare while_loop.simps [code]

text \<open>
  \<open>min(a_list, key=f)\<close> on a non-empty list \<open>a # as\<close>: the first element, in iteration
  order, whose key is least.
\<close>

definition py_min :: "('a \<Rightarrow> int) \<Rightarrow> 'a \<Rightarrow> 'a list \<Rightarrow> 'a" where
  "py_min key a as = fold (\<lambda>y m. if key y < key m then y else m) as a"

text \<open>
  \<open>list.sort(key=f)\<close> and \<open>sorted(list, key=f)\<close> are stable; so is \<^const>\<open>sort_key\<close>,
  which inserts each element in front of the elements with an equal key that followed it.
\<close>

section \<open>First come, first served\<close>

text \<open>The \<open>for process in processes\<close> loop of \<open>fcfs\<close>, with its local variables.\<close>

fun fcfs_loop :: "process list \<Rightarrow> int \<Rightarrow> int list \<Rightarrow> int list \<Rightarrow> int list
    \<Rightarrow> int list \<times> int list \<times> int list" where
  "fcfs_loop [] time start finish order = (start, finish, order)"
| "fcfs_loop (process # rest) time start finish order =
     (let time1 = (if time < arrival process then arrival process else time);
          time2 = time1 + burst process
      in fcfs_loop rest time2 (start @ [time1]) (finish @ [time2]) (order @ [pid process]))"

text \<open>
  \<open>fcfs\<close> sorts \<open>schedule.processes\<close> in place: the request object after the call is
  returned with the response.
\<close>

definition fcfs :: "Input \<Rightarrow> Input \<times> response" where
  "fcfs schedule =
     (let sorted_processes = sort_key arrival (processes schedule);
          (start, finish, order) = fcfs_loop sorted_processes 0 [] [] []
      in (schedule\<lparr>processes := sorted_processes\<rparr>, Schedule finish order))"

section \<open>Shortest job first and priority scheduling\<close>

text \<open>
  \<open>sjf\<close> and \<open>priority_scheduling\<close> are the same text but for the key of \<open>min\<close>
  (\<open>x[2]\<close>, the burst, and \<open>x[3]\<close>, the priority). The loop state is
  \<open>time, completed, order, finish\<close>; \<open>completed\<close> is a list of rows.
\<close>

record np_state =
  np_time :: int
  np_completed :: "process list"
  np_order :: "int list"
  np_finish :: "int list"

definition np_init :: np_state where
  "np_init = \<lparr>np_time = 0, np_completed = [], np_order = [], np_finish = []\<rparr>"

definition available :: "process list \<Rightarrow> np_state \<Rightarrow> process list" where
  "available procs s = filter (\<lambda>p. arrival p \<le> np_time s \<and> p \<notin> set (np_completed s)) procs"

definition np_body :: "(process \<Rightarrow> int) \<Rightarrow> process list \<Rightarrow> np_state \<Rightarrow> np_state" where
  "np_body key procs s =
     (case available procs s of
        [] \<Rightarrow> s\<lparr>np_time := np_time s + 1\<rparr>
      | a # as \<Rightarrow>
          (let p = py_min key a as; time' = np_time s + burst p
           in \<lparr>np_time = time', np_completed = np_completed s @ [p],
               np_order = np_order s @ [pid p], np_finish = np_finish s @ [time']\<rparr>))"

definition np_cond :: "nat \<Rightarrow> np_state \<Rightarrow> bool" where
  "np_cond n s = (length (np_completed s) < n)"

definition np_schedule :: "(process \<Rightarrow> int) \<Rightarrow> Input \<Rightarrow> (Input \<times> response) option" where
  "np_schedule key schedule =
     (let sorted_processes = sort_key arrival (processes schedule);
          n = length sorted_processes
      in case while_loop (np_cond n) (np_body key sorted_processes) np_init of
           None \<Rightarrow> None
         | Some s \<Rightarrow> Some (schedule\<lparr>processes := sorted_processes\<rparr>,
                           Schedule (np_finish s) (np_order s)))"

definition sjf :: "Input \<Rightarrow> (Input \<times> response) option" where
  "sjf = np_schedule burst"

definition priority_scheduling :: "Input \<Rightarrow> (Input \<times> response) option" where
  "priority_scheduling = np_schedule priority"

section \<open>Round robin\<close>

text \<open>
  \<open>process_dict\<close> maps a pid to a dictionary with the keys \<open>arrival\<close>, \<open>burst\<close>,
  \<open>priority\<close> and \<open>remaining\<close>; only \<open>remaining\<close> is ever assigned to.
\<close>

record entry =
  d_arrival :: int
  d_burst :: int
  d_priority :: int
  d_remaining :: int

definition make_dict :: "process list \<Rightarrow> (int \<rightharpoonup> entry)" where
  "make_dict procs =
     fold (\<lambda>p d. d(pid p \<mapsto> \<lparr>d_arrival = arrival p, d_burst = burst p,
                              d_priority = priority p, d_remaining = burst p\<rparr>))
          procs Map.empty"

text \<open>
  \<open>process_dict[pid]\<close> is only read at pids taken from the rows or from the queue, which
  are keys of the dictionary (lemma \<open>rr_keys\<close> below), so no \<open>KeyError\<close> arises.
\<close>

definition lookup :: "(int \<rightharpoonup> entry) \<Rightarrow> int \<Rightarrow> entry" where
  "lookup d i = the (d i)"

record rr_state =
  rr_time :: int
  rr_queue :: "int list"
  rr_completed :: "int set"
  rr_order :: "int list"
  rr_finish :: "int list"
  rr_dict :: "int \<rightharpoonup> entry"

definition rr_init :: "process list \<Rightarrow> rr_state" where
  "rr_init procs = \<lparr>rr_time = 0, rr_queue = [], rr_completed = {}, rr_order = [],
                     rr_finish = [], rr_dict = make_dict procs\<rparr>"

text \<open>The first \<open>for p in sorted_processes\<close> loop: processes that have arrived by \<open>time\<close>.\<close>

definition admit :: "(int \<rightharpoonup> entry) \<Rightarrow> int \<Rightarrow> int set \<Rightarrow> process list \<Rightarrow> int list \<Rightarrow> int list" where
  "admit d time completed sorted_processes queue =
     fold (\<lambda>p queue.
             if d_arrival (lookup d (pid p)) \<le> time \<and> pid p \<notin> completed \<and> pid p \<notin> set queue
             then queue @ [pid p] else queue)
          sorted_processes queue"

text \<open>The second one, after the slice: the same test and \<open>pid != current_pid\<close>.\<close>

definition admit_new :: "(int \<rightharpoonup> entry) \<Rightarrow> int \<Rightarrow> int set \<Rightarrow> int \<Rightarrow> process list \<Rightarrow> int list \<Rightarrow> int list" where
  "admit_new d time completed current_pid sorted_processes queue =
     fold (\<lambda>p queue.
             if d_arrival (lookup d (pid p)) \<le> time \<and> pid p \<notin> completed \<and> pid p \<notin> set queue
                \<and> pid p \<noteq> current_pid
             then queue @ [pid p] else queue)
          sorted_processes queue"

definition rr_body :: "int \<Rightarrow> process list \<Rightarrow> rr_state \<Rightarrow> rr_state" where
  "rr_body q sorted_processes s =
     (case admit (rr_dict s) (rr_time s) (rr_completed s) sorted_processes (rr_queue s) of
        [] \<Rightarrow> s\<lparr>rr_queue := [], rr_time := rr_time s + 1\<rparr>
      | current_pid # queue \<Rightarrow>
          (let cur = lookup (rr_dict s) current_pid;
               exec_time = min q (d_remaining cur);
               remaining = d_remaining cur - exec_time;
               d = (rr_dict s)(current_pid \<mapsto> cur\<lparr>d_remaining := remaining\<rparr>);
               time = rr_time s + exec_time;
               queue1 = admit_new d time (rr_completed s) current_pid sorted_processes queue
           in \<lparr>rr_time = time,
               rr_queue = (if remaining > 0 then queue1 @ [current_pid] else queue1),
               rr_completed = (if remaining > 0 then rr_completed s
                               else insert current_pid (rr_completed s)),
               rr_order = rr_order s @ [current_pid],
               rr_finish = rr_finish s @ [time],
               rr_dict = d\<rparr>))"

definition rr_cond :: "nat \<Rightarrow> rr_state \<Rightarrow> bool" where
  "rr_cond n s = (card (rr_completed s) < n)"

text \<open>
  In \<open>rr_body\<close>, \<open>q\<close> is the local \<open>quantum\<close> once it is known not to be \<open>None\<close>.
  \<open>round_robin\<close> works on \<open>sorted(processes, ...)\<close>, a copy: the request object is
  returned as it came.
\<close>

definition round_robin :: "Input \<Rightarrow> (Input \<times> response) option" where
  "round_robin schedule =
     (case quantum schedule of
        None \<Rightarrow> Some (schedule, Error ''Quantum must be provided for Round Robin scheduling'')
      | Some q \<Rightarrow>
          (let sorted_processes = sort_key arrival (processes schedule);
               n = length (processes schedule)
           in case while_loop (rr_cond n) (rr_body q sorted_processes)
                     (rr_init (processes schedule)) of
                None \<Rightarrow> None
              | Some s \<Rightarrow> Some (schedule, Schedule (rr_finish s) (rr_order s))))"

section \<open>Well-formed batches and auxiliary notions\<close>

text \<open>A valid batch: unique ids, no negative arrival time, positive burst times.\<close>

definition valid_batch :: "process list \<Rightarrow> bool" where
  "valid_batch procs =
     (distinct (map pid procs) \<and> (\<forall>p\<in>set procs. 0 \<le> arrival p \<and> 0 < burst p))"

text \<open>The position of a row in a batch (the first one, should the row occur twice).\<close>

fun index_of :: "'a list \<Rightarrow> 'a \<Rightarrow> nat" where
  "index_of [] y = 0"
| "index_of (x # xs) y = (if x = y then 0 else Suc (index_of xs y))"

text \<open>
  Completion tracked by process id, as the specification words it: a row is eligible when
  it has arrived and its id is not the id of a completed row. To be compared with
  \<^const>\<open>available\<close>, which asks whether the row itself is in \<open>completed\<close>.
\<close>

definition available_by_id :: "process list \<Rightarrow> np_state \<Rightarrow> process list" where
  "available_by_id procs s =
     filter (\<lambda>p. arrival p \<le> np_time s \<and> pid p \<notin> pid ` set (np_completed s)) procs"

text \<open>What every state of the loop of \<open>sjf\<close> and \<open>priority_scheduling\<close> satisfies.\<close>

definition np_inv :: "process list \<Rightarrow> np_state \<Rightarrow> bool" where
  "np_inv procs s =
     (distinct (np_completed s) \<and> set (np_completed s) \<subseteq> set procs \<and>
      np_order s = map pid (np_completed s) \<and> length (np_finish s) = length (np_order s))"

text \<open>
  The rows not yet served in a state of that loop, and the least arrival time among them
  (meaningful when some row is unserved).
\<close>

definition unserved :: "process list \<Rightarrow> np_state \<Rightarrow> process list" where
  "unserved procs s = filter (\<lambda>p. p \<notin> set (np_completed s)) procs"

definition min_arrival :: "process list \<Rightarrow> np_state \<Rightarrow> int" where
  "min_arrival procs s = Min (set (map arrival (unserved procs s)))"

text \<open>
  Round robin: the total length of the slices given to the process \<open>i\<close> in the first
  \<open>k\<close> iterations after the state \<open>s0\<close>. An iteration that appends \<open>i\<close> to \<open>order\<close>
  is a slice of \<open>i\<close>, as long as the advance of the clock in that iteration
  (\<open>time += exec_time\<close>).
\<close>

fun rr_executed :: "int \<Rightarrow> process list \<Rightarrow> rr_state \<Rightarrow> nat \<Rightarrow> int \<Rightarrow> int" where
  "rr_executed q sp s0 0 i = 0"
| "rr_executed q sp s0 (Suc k) i =
     rr_executed q sp s0 k i +
     (let s = (rr_body q sp ^^ k) s0; s' = rr_body q sp s
      in if rr_order s' = rr_order s @ [i] then rr_time s' - rr_time s else 0)"

text \<open>The \<open>remaining\<close> entry of a pid.\<close>

definition rr_remaining :: "rr_state \<Rightarrow> int \<Rightarrow> int" where
  "rr_remaining s i = d_remaining (lookup (rr_dict s) i)"

text \<open>
  What every state of the loop of \<open>round_robin\<close> satisfies, for a valid batch and a
  positive quantum \<open>q\<close>: the dictionary holds every row with a remaining time between 0
  and its burst; a pid is completed exactly when nothing remains; the slices run so far
  were all \<open>q\<close> long while work remains, and number \<open>(burst + q - 1) div q\<close>, the
  burst divided by \<open>q\<close> and rounded up, once nothing remains; queued and completed
  processes have arrived; the queue holds pids of the batch, none completed, none twice.
\<close>

definition rr_inv :: "process list \<Rightarrow> int \<Rightarrow> rr_state \<Rightarrow> bool" where
  "rr_inv procs q s =
     ((\<forall>p\<in>set procs.
         rr_dict s (pid p) = Some \<lparr>d_arrival = arrival p, d_burst = burst p,
                                   d_priority = priority p,
                                   d_remaining = rr_remaining s (pid p)\<rparr> \<and>
         0 \<le> rr_remaining s (pid p) \<and>
         (pid p \<in> rr_completed s \<longleftrightarrow> rr_remaining s (pid p) = 0) \<and>
         (0 < rr_remaining s (pid p) \<longrightarrow>
            burst p - rr_remaining s (pid p) = q * int (count_list (rr_order s) (pid p))) \<and>
         (rr_remaining s (pid p) = 0 \<longrightarrow>
            int (count_list (rr_order s) (pid p)) = (burst p + q - 1) div q) \<and>
         (pid p \<in> set (rr_queue s) \<or> pid p \<in> rr_completed s \<longrightarrow> arrival p \<le> rr_time s)) \<and>
      rr_completed s \<subseteq> pid ` set procs \<and>
      set (rr_queue s) \<subseteq> pid ` set procs \<and>
      set (rr_queue s) \<inter> rr_completed s = {} \<and>
      distinct (rr_queue s) \<and>
      length (rr_finish s) = length (rr_order s))"

section \<open>Rules for \<open>while\<close> loops\<close>

text \<open>
  An invariant that holds before the loop and that the body keeps holds when the loop is
  left, where the loop condition is false.
\<close>

lemma while_loop_rule_aux:
  assumes "while_loop c b s = Some t"
  shows "(\<forall>x. P x \<longrightarrow> c x \<longrightarrow> P (b x)) \<longrightarrow> P s \<longrightarrow> P t \<and> \<not> c t"
proof (rule while_loop.raw_induct
    [where P = "\<lambda>c b s t. (\<forall>x. P x \<longrightarrow> c x \<longrightarrow> P (b x)) \<longrightarrow> P s \<longrightarrow> P t \<and> \<not> c t", OF _ assms])
  fix loop :: "('a \<Rightarrow> bool) \<Rightarrow> ('a \<Rightarrow> 'a) \<Rightarrow> 'a \<Rightarrow> 'a option" and c b s t
  assume IH: "\<And>c b s t. loop c b s = Some t \<Longrightarrow>
      (\<forall>x. P x \<longrightarrow> c x \<longrightarrow> P (b x)) \<longrightarrow> P s \<longrightarrow> P t \<and> \<not> c t"
    and eq: "(if c s then loop c b (b s) else Some s) = Some t"
  show "(\<forall>x. P x \<longrightarrow> c x \<longrightarrow> P (b x)) \<longrightarrow> P s \<longrightarrow> P t \<and> \<not> c t"
  proof (intro impI)
    assume step: "\<forall>x. P x \<longrightarrow> c x \<longrightarrow> P (b x)" and s: "P s"
    show "P t \<and> \<not> c t"
    proof (cases "c s")
      case True
      with eq have "loop c b (b s) = Some t" by simp
      from IH[OF this] step have "P (b s) \<longrightarrow> P t \<and> \<not> c t" by (rule mp)
      moreover from step s True have "P (b s)" by simp
      ultimately show ?thesis by (rule mp)
    next
      case False
      with eq have "t = s" by simp
      with s False show ?thesis by simp
    qed
  qed
qed

lemma while_loop_rule:
  assumes "while_loop c b s = Some t" and "P s"
    and "\<And>x. P x \<Longrightarrow> c x \<Longrightarrow> P (b x)"
  shows "P t \<and> \<not> c t"
proof -
  have "\<forall>x. P x \<longrightarrow> c x \<longrightarrow> P (b x)" using assms(3) by simp
  with while_loop_rule_aux[OF assms(1), of P] assms(2) show ?thesis by simp
qed

lemma while_loop_diverges:
  assumes "P s" and "\<And>x. P x \<Longrightarrow> c x \<and> P (b x)"
  shows "while_loop c b s = None"
proof (cases "while_loop c b s")
  case (Some t)
  have "P t \<and> \<not> c t"
    by (rule while_loop_rule[OF Some, of P]) (simp_all add: assms)
  with assms(2)[of t] show ?thesis by simp
qed simp

lemma while_loop_funpow:
  "\<not> c ((b ^^ k) s) \<Longrightarrow> \<exists>j\<le>k. while_loop c b s = Some ((b ^^ j) s)"
proof (induction k arbitrary: s)
  case 0
  then show ?case by (simp add: while_loop.simps)
next
  case (Suc k)
  show ?case
  proof (cases "c s")
    case True
    from Suc.prems have "\<not> c ((b ^^ k) (b s))" by (simp add: funpow_swap1)
    from Suc.IH[OF this] obtain j where j: "j \<le> k" "while_loop c b (b s) = Some ((b ^^ j) (b s))" by blast
    then have "while_loop c b s = Some ((b ^^ Suc j) s)"
      using True by (subst while_loop.simps) (simp add: funpow_swap1)
    with j(1) show ?thesis by (metis Suc_le_mono)
  next
    case False
    then have "while_loop c b s = Some ((b ^^ 0) s)" by (simp add: while_loop.simps)
    then show ?thesis by blast
  qed
qed

lemma while_loop_terminates:
  assumes "wf R" and "P s"
    and "\<And>x. P x \<Longrightarrow> c x \<Longrightarrow> P (b x) \<and> (b x, x) \<in> R"
  shows "\<exists>t. while_loop c b s = Some t"
  using assms(1,2)
proof (induction s rule: wf_induct_rule)
  case (less s)
  show ?case
  proof (cases "c s")
    case True
    with assms(3)[OF less.prems] have "P (b s)" "(b s, s) \<in> R" by auto
    from less.IH[OF this(2,1)] show ?thesis using True by (subst while_loop.simps) simp
  next
    case False
    then show ?thesis by (simp add: while_loop.simps)
  qed
qed

lemma while_loop_reach:
  "while_loop c b s = Some t \<Longrightarrow> \<exists>k. t = (b ^^ k) s"
proof -
  assume a: "while_loop c b s = Some t"
  have "(\<exists>k. t = (b ^^ k) s) \<and> \<not> c t"
  proof (rule while_loop_rule[OF a, of "\<lambda>x. \<exists>k. x = (b ^^ k) s"])
    show "\<exists>k. s = (b ^^ k) s" by (rule exI[of _ 0]) simp
  next
    fix x assume "\<exists>k. x = (b ^^ k) s"
    then obtain k where "x = (b ^^ k) s" ..
    then have "b x = (b ^^ Suc k) s" by simp
    then show "\<exists>k. b x = (b ^^ k) s" ..
  qed
  then show ?thesis ..
qed

section \<open>The minimum that Python's min returns\<close>

lemma py_min_fold:
  fixes key :: "'a \<Rightarrow> int"
  shows "fold (\<lambda>y m. if key y < key m then y else m) as m = r \<Longrightarrow>
     key r \<le> key m \<and> (\<forall>x\<in>set as. key r \<le> key x) \<and>
     (r = m \<and> (\<forall>x\<in>set as. key m \<le> key x) \<or>
      (\<exists>pre post. as = pre @ r # post \<and> key r < key m \<and> (\<forall>x\<in>set pre. key r < key x)))"
proof (induction as arbitrary: m)
  case Nil
  then show ?case by simp
next
  case (Cons y ys)
  show ?case
  proof (cases "key y < key m")
    case True
    with Cons.prems have f: "fold (\<lambda>y m. if key y < key m then y else m) ys y = r" by simp
    from Cons.IH[OF f] have le: "key r \<le> key y" and all: "\<forall>x\<in>set ys. key r \<le> key x"
      and d: "r = y \<and> (\<forall>x\<in>set ys. key y \<le> key x) \<or>
        (\<exists>pre post. ys = pre @ r # post \<and> key r < key y \<and> (\<forall>x\<in>set pre. key r < key x))"
      by blast+
    from d have "\<exists>pre post. y # ys = pre @ r # post \<and> key r < key m \<and> (\<forall>x\<in>set pre. key r < key x)"
    proof
      assume "r = y \<and> (\<forall>x\<in>set ys. key y \<le> key x)"
      then have "y # ys = [] @ r # ys \<and> key r < key m \<and> (\<forall>x\<in>set []. key r < key x)"
        using True by simp
      then show ?thesis by blast
    next
      assume "\<exists>pre post. ys = pre @ r # post \<and> key r < key y \<and> (\<forall>x\<in>set pre. key r < key x)"
      then obtain pre post where "ys = pre @ r # post" "key r < key y" "\<forall>x\<in>set pre. key r < key x"
        by blast
      then have "y # ys = (y # pre) @ r # post \<and> key r < key m \<and> (\<forall>x\<in>set (y # pre). key r < key x)"
        using True by simp
      then show ?thesis by blast
    qed
    with le all True show ?thesis by auto
  next
    case False
    with Cons.prems have f: "fold (\<lambda>y m. if key y < key m then y else m) ys m = r" by simp
    from Cons.IH[OF f] have le: "key r \<le> key m" and all: "\<forall>x\<in>set ys. key r \<le> key x"
      and d: "r = m \<and> (\<forall>x\<in>set ys. key m \<le> key x) \<or>
        (\<exists>pre post. ys = pre @ r # post \<and> key r < key m \<and> (\<forall>x\<in>set pre. key r < key x))"
      by blast+
    from d have "r = m \<and> (\<forall>x\<in>set (y # ys). key m \<le> key x) \<or>
      (\<exists>pre post. y # ys = pre @ r # post \<and> key r < key m \<and> (\<forall>x\<in>set pre. key r < key x))"
    proof
      assume "r = m \<and> (\<forall>x\<in>set ys. key m \<le> key x)"
      with False show ?thesis by auto
    next
      assume "\<exists>pre post. ys = pre @ r # post \<and> key r < key m \<and> (\<forall>x\<in>set pre. key r < key x)"
      then obtain pre post where *: "ys = pre @ r # post" "key r < key m" "\<forall>x\<in>set pre. key r < key x"
        by blast
      then have "y # ys = (y # pre) @ r # post \<and> key r < key m \<and> (\<forall>x\<in>set (y # pre). key r < key x)"
        using False by simp
      then show ?thesis by blast
    qed
    moreover from le all False have "\<forall>x\<in>set (y # ys). key r \<le> key x" by auto
    ultimately show ?thesis using le by blast
  qed
qed

text \<open>\<open>min\<close> returns the first of the elements with the least key.\<close>

lemma py_min_first:
  fixes key :: "'a \<Rightarrow> int"
  shows "\<exists>pre post. a # as = pre @ py_min key a as # post \<and>
     (\<forall>x\<in>set pre. key (py_min key a as) < key x) \<and>
     (\<forall>x\<in>set post. key (py_min key a as) \<le> key x)"
proof -
  define r where "r = py_min key a as"
  have f: "fold (\<lambda>y m. if key y < key m then y else m) as a = r" by (simp add: py_min_def r_def)
  from py_min_fold[OF f] have all: "\<forall>x\<in>set as. key r \<le> key x"
    and d: "r = a \<and> (\<forall>x\<in>set as. key a \<le> key x) \<or>
      (\<exists>pre post. as = pre @ r # post \<and> key r < key a \<and> (\<forall>x\<in>set pre. key r < key x))"
    by blast+
  from d have "\<exists>pre post. a # as = pre @ r # post \<and>
     (\<forall>x\<in>set pre. key r < key x) \<and> (\<forall>x\<in>set post. key r \<le> key x)"
  proof
    assume "r = a \<and> (\<forall>x\<in>set as. key a \<le> key x)"
    then have "a # as = [] @ r # as \<and> (\<forall>x\<in>set []. key r < key x) \<and> (\<forall>x\<in>set as. key r \<le> key x)"
      by simp
    then show ?thesis by blast
  next
    assume "\<exists>pre post. as = pre @ r # post \<and> key r < key a \<and> (\<forall>x\<in>set pre. key r < key x)"
    then obtain pre post where *: "as = pre @ r # post" "key r < key a" "\<forall>x\<in>set pre. key r < key x"
      by blast
    from * all have "\<forall>x\<in>set post. key r \<le> key x" by auto
    with * have "a # as = (a # pre) @ r # post \<and> (\<forall>x\<in>set (a # pre). key r < key x) \<and>
      (\<forall>x\<in>set post. key r \<le> key x)" by simp
    then show ?thesis by blast
  qed
  then show ?thesis by (simp add: r_def)
qed

lemma py_min_in: "py_min key a as \<in> set (a # as)"
proof -
  from py_min_first[of a as key] obtain pre post where "a # as = pre @ py_min key a as # post" by blast
  then have "set (a # as) = set (pre @ py_min key a as # post)" by simp
  then show ?thesis by simp
qed

lemma py_min_le:
  fixes key :: "'a \<Rightarrow> int"
  shows "x \<in> set (a # as) \<Longrightarrow> key (py_min key a as) \<le> key x"
proof -
  assume x: "x \<in> set (a # as)"
  from py_min_first[of a as key] obtain pre post where *: "a # as = pre @ py_min key a as # post"
    "\<forall>x\<in>set pre. key (py_min key a as) < key x" "\<forall>x\<in>set post. key (py_min key a as) \<le> key x" by blast
  from x *(1) have "x \<in> set pre \<or> x = py_min key a as \<or> x \<in> set post" by (metis Un_iff set_ConsD set_append)
  with *(2,3) show ?thesis by force
qed

section \<open>The loop of sjf and priority_scheduling\<close>

lemma np_inv_init: "np_inv procs np_init"
  by (simp add: np_inv_def np_init_def)

lemma available_Cons_min:
  assumes "available procs s = a # as"
  shows "py_min key a as \<in> set procs" and "py_min key a as \<notin> set (np_completed s)"
    and "arrival (py_min key a as) \<le> np_time s"
proof -
  have "py_min key a as \<in> set (available procs s)" using py_min_in[of key a as] assms by simp
  then show "py_min key a as \<in> set procs" and "py_min key a as \<notin> set (np_completed s)"
    and "arrival (py_min key a as) \<le> np_time s"
    by (simp_all add: available_def)
qed

lemma np_inv_body: "np_inv procs s \<Longrightarrow> np_inv procs (np_body key procs s)"
proof (cases "available procs s")
  case Nil
  assume "np_inv procs s"
  with Nil show ?thesis by (simp add: np_inv_def np_body_def)
next
  case (Cons a as)
  assume "np_inv procs s"
  with available_Cons_min(1,2)[OF Cons, of key] show ?thesis
    by (simp add: np_inv_def np_body_def Cons Let_def)
qed

lemma np_inv_funpow: "np_inv procs ((np_body key procs ^^ k) np_init)"
  by (induction k) (simp_all add: np_inv_init np_inv_body)

lemma np_uncompleted:
  assumes "np_inv procs s" and "distinct procs" and "np_cond (length procs) s"
  shows "\<exists>p\<in>set procs. p \<notin> set (np_completed s)"
proof (rule ccontr)
  assume "\<not> (\<exists>p\<in>set procs. p \<notin> set (np_completed s))"
  then have "set procs \<subseteq> set (np_completed s)" by blast
  then have "card (set procs) \<le> card (set (np_completed s))" by (simp add: card_mono)
  moreover have "card (set procs) = length procs" using assms(2) by (simp add: distinct_card)
  moreover have "card (set (np_completed s)) = length (np_completed s)"
    using assms(1) by (simp add: np_inv_def distinct_card)
  ultimately show False using assms(3) by (simp add: np_cond_def)
qed

lemma np_body_decreases:
  assumes inv: "np_inv procs s" and d: "distinct procs" and c: "np_cond (length procs) s"
  shows "(np_body key procs s, s) \<in>
     measures [\<lambda>s. length procs - length (np_completed s),
               \<lambda>s. nat (Max (set (map arrival procs)) - np_time s)]"
proof (cases "available procs s")
  case Nil
  from np_uncompleted[OF inv d c] obtain p where p: "p \<in> set procs" "p \<notin> set (np_completed s)"
    by blast
  have "p \<notin> set (available procs s)" using Nil by simp
  with p have "np_time s < arrival p" by (simp add: available_def)
  moreover have "arrival p \<le> Max (set (map arrival procs))" using p(1) by simp
  ultimately have "nat (Max (set (map arrival procs)) - (np_time s + 1))
      < nat (Max (set (map arrival procs)) - np_time s)" by linarith
  then show ?thesis using Nil by (simp add: np_body_def)
next
  case (Cons a as)
  from c show ?thesis by (simp add: np_body_def Cons np_cond_def Let_def) linarith
qed

lemma np_loop_terminates:
  assumes "distinct procs"
  shows "\<exists>t. while_loop (np_cond (length procs)) (np_body key procs) np_init = Some t"
proof (rule while_loop_terminates[where P = "np_inv procs"])
  show "wf (measures [\<lambda>s. length procs - length (np_completed s),
               \<lambda>s. nat (Max (set (map arrival procs)) - np_time s)])" by simp
  show "np_inv procs np_init" by (rule np_inv_init)
  fix x assume "np_inv procs x" "np_cond (length procs) x"
  then show "np_inv procs (np_body key procs x) \<and> (np_body key procs x, x) \<in>
     measures [\<lambda>s. length procs - length (np_completed s),
               \<lambda>s. nat (Max (set (map arrival procs)) - np_time s)]"
    using np_inv_body[of procs x key] np_body_decreases[OF _ assms, of x key] by blast
qed

lemma np_loop_final:
  assumes "while_loop (np_cond (length procs)) (np_body key procs) np_init = Some t"
  shows "np_inv procs t" and "length procs \<le> length (np_completed t)"
proof -
  have "np_inv procs t \<and> \<not> np_cond (length procs) t"
    by (rule while_loop_rule[OF assms]) (simp_all add: np_inv_init np_inv_body)
  then show "np_inv procs t" and "length procs \<le> length (np_completed t)"
    by (simp_all add: np_cond_def)
qed

lemma np_final_set:
  assumes "np_inv procs t" and "length procs \<le> length (np_completed t)"
  shows "set (np_completed t) = set procs" and "length (np_completed t) = length procs"
proof -
  have sub: "set (np_completed t) \<subseteq> set procs" and dc: "distinct (np_completed t)"
    using assms(1) by (simp_all add: np_inv_def)
  have "length (np_completed t) = card (set (np_completed t))" using dc by (simp add: distinct_card)
  also have "\<dots> \<le> card (set procs)" using sub by (simp add: card_mono)
  also have "\<dots> \<le> length procs" by (rule card_length)
  finally have le: "length (np_completed t) \<le> length procs" .
  with assms(2) show len: "length (np_completed t) = length procs" by simp
  have "card (set procs) \<le> card (set (np_completed t))"
    using len dc card_length[of procs] by (simp add: distinct_card)
  then show "set (np_completed t) = set procs" using sub by (simp add: card_seteq)
qed

lemma count_list_distinct: "distinct xs \<Longrightarrow> x \<in> set xs \<Longrightarrow> count_list xs x = 1"
  by (induction xs) auto

lemma np_final_order:
  assumes "np_inv procs t" and "length procs \<le> length (np_completed t)"
    and "distinct (map pid procs)" and "p \<in> set procs"
  shows "count_list (np_order t) (pid p) = 1"
proof -
  have s: "set (np_completed t) = set procs" by (rule np_final_set(1)[OF assms(1,2)])
  have "inj_on pid (set procs)" using assms(3) by (simp add: distinct_map)
  then have "inj_on pid (set (np_completed t))" using s by simp
  moreover have "p \<in> set (np_completed t)" using s assms(4) by simp
  ultimately have "count_list (map pid (np_completed t)) (pid p) = count_list (np_completed t) p"
    by (rule count_list_inj_map)
  also have "\<dots> = 1" using assms(1) \<open>p \<in> set (np_completed t)\<close>
    by (simp add: np_inv_def count_list_distinct)
  finally show ?thesis using assms(1) by (simp add: np_inv_def)
qed

lemma available_by_id_eq:
  assumes "distinct (map pid procs)" and "set (np_completed s) \<subseteq> set procs"
  shows "available_by_id procs s = available procs s"
  unfolding available_by_id_def available_def
proof (rule filter_cong[OF refl])
  fix p assume p: "p \<in> set procs"
  have inj: "inj_on pid (set procs)" using assms(1) by (simp add: distinct_map)
  have "pid p \<in> pid ` set (np_completed s) \<longleftrightarrow> p \<in> set (np_completed s)"
    using inj p assms(2) by (auto simp: inj_on_def)
  then show "(arrival p \<le> np_time s \<and> pid p \<notin> pid ` set (np_completed s)) =
     (arrival p \<le> np_time s \<and> p \<notin> set (np_completed s))" by simp
qed

section \<open>Idle iterations\<close>

lemma idle_steps:
  assumes "\<forall>p\<in>set (unserved procs s). np_time s + int j \<le> arrival p"
  shows "(np_body key procs ^^ j) s = s\<lparr>np_time := np_time s + int j\<rparr>"
  using assms
proof (induction j)
  case 0
  then show ?case by simp
next
  case (Suc j)
  then have IH: "(np_body key procs ^^ j) s = s\<lparr>np_time := np_time s + int j\<rparr>" by force
  have "available procs (s\<lparr>np_time := np_time s + int j\<rparr>) = []"
    using Suc.prems by (auto simp: available_def unserved_def filter_empty_conv)
  then have "np_body key procs (s\<lparr>np_time := np_time s + int j\<rparr>)
      = s\<lparr>np_time := np_time s + int j + 1\<rparr>"
    by (simp add: np_body_def)
  with IH show ?case by (simp add: add.assoc)
qed

lemma min_arrival_le:
  "p \<in> set (unserved procs s) \<Longrightarrow> min_arrival procs s \<le> arrival p"
  by (simp add: min_arrival_def)

lemma min_arrival_in:
  "unserved procs s \<noteq> [] \<Longrightarrow> \<exists>p\<in>set (unserved procs s). arrival p = min_arrival procs s"
proof -
  assume "unserved procs s \<noteq> []"
  then have "Min (set (map arrival (unserved procs s))) \<in> set (map arrival (unserved procs s))"
    by (intro Min_in) simp_all
  then show ?thesis by (auto simp: min_arrival_def)
qed

lemma idle_gap:
  assumes "available procs s = []" and "unserved procs s \<noteq> []"
  shows "np_time s < min_arrival procs s"
proof -
  from min_arrival_in[OF assms(2)] obtain p where p: "p \<in> set (unserved procs s)"
    "arrival p = min_arrival procs s" by blast
  from p(1) have "p \<in> set procs" "p \<notin> set (np_completed s)" by (simp_all add: unserved_def)
  moreover have "p \<notin> set (available procs s)" using assms(1) by simp
  ultimately have "np_time s < arrival p" by (simp add: available_def)
  with p(2) show ?thesis by simp
qed

text \<open>
  Claim C4, as amended. In a state of the loop of \<open>sjf\<close> or \<open>priority_scheduling\<close>
  where no row is eligible and some row is unserved, one iteration adds one time unit to
  the clock and changes nothing else; the clock is then below the least arrival time
  \<open>m\<close> of the unserved rows, every one of the next \<open>m - time\<close> iterations is such
  an idle step, and it is after \<open>m - time\<close> iterations that the clock equals \<open>m\<close>.
\<close>

theorem idle_clock_advances_by_one:
  assumes "available procs s = []" and "unserved procs s \<noteq> []"
  shows "np_body key procs s = s\<lparr>np_time := np_time s + 1\<rparr>
    \<and> 0 < min_arrival procs s - np_time s
    \<and> (\<forall>j \<le> nat (min_arrival procs s - np_time s).
          (np_body key procs ^^ j) s = s\<lparr>np_time := np_time s + int j\<rparr>)
    \<and> (np_body key procs ^^ nat (min_arrival procs s - np_time s)) s
          = s\<lparr>np_time := min_arrival procs s\<rparr>"
proof -
  have gap: "np_time s < min_arrival procs s" by (rule idle_gap[OF assms])
  have steps: "(np_body key procs ^^ j) s = s\<lparr>np_time := np_time s + int j\<rparr>"
    if "j \<le> nat (min_arrival procs s - np_time s)" for j
  proof (rule idle_steps)
    show "\<forall>p\<in>set (unserved procs s). np_time s + int j \<le> arrival p"
    proof
      fix p assume "p \<in> set (unserved procs s)"
      then have "min_arrival procs s \<le> arrival p" by (rule min_arrival_le)
      with that gap show "np_time s + int j \<le> arrival p" by linarith
    qed
  qed
  have "np_body key procs s = s\<lparr>np_time := np_time s + 1\<rparr>"
    using assms(1) by (simp add: np_body_def)
  moreover have "(np_body key procs ^^ nat (min_arrival procs s - np_time s)) s
          = s\<lparr>np_time := min_arrival procs s\<rparr>"
    using steps[of "nat (min_arrival procs s - np_time s)"] gap by simp
  ultimately show ?thesis using gap steps by simp
qed

theorem idle_clock_advances_by_one_witness:
  "available [Process 1 3 2 0] np_init = [] \<and> unserved [Process 1 3 2 0] np_init \<noteq> []
   \<and> np_body burst [Process 1 3 2 0] np_init = np_init\<lparr>np_time := 1\<rparr>
   \<and> (np_body burst [Process 1 3 2 0] ^^ 3) np_init = np_init\<lparr>np_time := 3\<rparr>"
  using idle_clock_advances_by_one[of "[Process 1 3 2 0]" np_init burst]
  by (simp add: available_def unserved_def min_arrival_def np_init_def)

text \<open>
  Claim C4 as stated fails: with the single row \<open>(1, 5, 3, 0)\<close> and the clock at 0 no
  row is eligible, the least arrival time of the unserved rows is 5, and the iteration
  leaves the clock at 1.
\<close>

theorem idle_clock_jump_counterexample:
  "available [Process 1 5 3 0] np_init = [] \<and> unserved [Process 1 5 3 0] np_init \<noteq> []
   \<and> min_arrival [Process 1 5 3 0] np_init = 5
   \<and> np_time (np_body burst [Process 1 5 3 0] np_init) = 1
   \<and> np_time (np_body priority [Process 1 5 3 0] np_init) = 1"
  by (simp add: available_def unserved_def min_arrival_def np_init_def np_body_def)

section \<open>Scenario D\<close>

text \<open>
  Claim C5, as amended. \<open>round_robin\<close> with quantum 2 on the rows \<open>(1, 0, 5, _)\<close> and
  \<open>(2, 1, 3, _)\<close> answers with the order \<open>[1, 2, 1, 2, 1]\<close> and the finish times
  \<open>[2, 4, 6, 7, 8]\<close>: every slice but the last two is two units long, and the clock never
  idles.
\<close>

theorem rr_scenario_D:
  "round_robin \<lparr>processes = [Process 1 0 5 p1, Process 2 1 3 p2], quantum = Some 2\<rparr> =
     Some (\<lparr>processes = [Process 1 0 5 p1, Process 2 1 3 p2], quantum = Some 2\<rparr>,
           Schedule [2, 4, 6, 7, 8] [1, 2, 1, 2, 1])"
  by (simp add: round_robin_def rr_init_def make_dict_def rr_cond_def rr_body_def admit_def
      admit_new_def lookup_def while_loop.simps)

text \<open>Claim C5 as stated fails: the finish times are not \<open>[2, 3, 4, 5, 7]\<close>.\<close>

theorem rr_scenario_D_counterexample:
  "round_robin \<lparr>processes = [Process 1 0 5 0, Process 2 1 3 0], quantum = Some 2\<rparr> \<noteq>
     Some (\<lparr>processes = [Process 1 0 5 0, Process 2 1 3 0], quantum = Some 2\<rparr>,
           Schedule [2, 3, 4, 5, 7] [1, 2, 1, 2, 1])"
  by (simp add: round_robin_def rr_init_def make_dict_def rr_cond_def rr_body_def admit_def
      admit_new_def lookup_def while_loop.simps)

section \<open>The request object after the call\<close>

text \<open>
  Claim C2 fails on \<open>fcfs\<close>, \<open>sjf\<close> and \<open>priority_scheduling\<close>: they sort the
  caller's list in place. With the rows \<open>(1, 5, 1, 0)\<close>, \<open>(2, 0, 1, 0)\<close> the list is
  handed back in the other order.
\<close>

theorem sort_reorders_batch:
  "fst (fcfs \<lparr>processes = [Process 1 5 1 0, Process 2 0 1 0], quantum = None\<rparr>)
     = \<lparr>processes = [Process 2 0 1 0, Process 1 5 1 0], quantum = None\<rparr>
   \<and> map_option fst (sjf \<lparr>processes = [Process 1 5 1 0, Process 2 0 1 0], quantum = None\<rparr>)
     = Some \<lparr>processes = [Process 2 0 1 0, Process 1 5 1 0], quantum = None\<rparr>
   \<and> map_option fst (priority_scheduling \<lparr>processes = [Process 1 5 1 0, Process 2 0 1 0], quantum = None\<rparr>)
     = Some \<lparr>processes = [Process 2 0 1 0, Process 1 5 1 0], quantum = None\<rparr>"
  by (simp add: fcfs_def sjf_def priority_scheduling_def np_schedule_def np_cond_def np_body_def
      np_init_def available_def py_min_def while_loop.simps)

lemma round_robin_keeps_batch:
  "round_robin schedule = Some (schedule', r) \<Longrightarrow> schedule' = schedule"
  by (auto simp: round_robin_def Let_def split: option.splits)

lemma fcfs_batch_after: "processes (fst (fcfs schedule)) = sort_key arrival (processes schedule)"
  by (simp add: fcfs_def Let_def split: prod.splits)

lemma np_schedule_batch_after:
  "np_schedule key schedule = Some (schedule', r) \<Longrightarrow>
     processes schedule' = sort_key arrival (processes schedule)"
  by (auto simp: np_schedule_def Let_def split: option.splits)

section \<open>Round robin: the dictionary, admission to the queue, one iteration\<close>

lemma make_dict_fold_other:
  "i \<notin> pid ` set xs \<Longrightarrow>
   fold (\<lambda>p d. d(pid p \<mapsto> \<lparr>d_arrival = arrival p, d_burst = burst p,
                              d_priority = priority p, d_remaining = burst p\<rparr>)) xs d i = d i"
  by (induction xs arbitrary: d) auto

lemma make_dict_fold_in:
  "distinct (map pid xs) \<Longrightarrow> p \<in> set xs \<Longrightarrow>
   fold (\<lambda>p d. d(pid p \<mapsto> \<lparr>d_arrival = arrival p, d_burst = burst p,
                              d_priority = priority p, d_remaining = burst p\<rparr>)) xs d (pid p)
     = Some \<lparr>d_arrival = arrival p, d_burst = burst p,
                              d_priority = priority p, d_remaining = burst p\<rparr>"
proof (induction xs arbitrary: d)
  case Nil
  then show ?case by simp
next
  case (Cons x xs)
  show ?case
  proof (cases "p = x")
    case True
    with Cons.prems(1) have "pid x \<notin> pid ` set xs" by simp
    from make_dict_fold_other[OF this] show ?thesis using True
      by (simp del: fun_upd_apply) simp
  next
    case False
    with Cons show ?thesis by simp
  qed
qed

lemma make_dict_at:
  "distinct (map pid procs) \<Longrightarrow> p \<in> set procs \<Longrightarrow>
   make_dict procs (pid p) = Some \<lparr>d_arrival = arrival p, d_burst = burst p,
                              d_priority = priority p, d_remaining = burst p\<rparr>"
  unfolding make_dict_def by (rule make_dict_fold_in)

lemma admit_new_eq: "admit_new d t c cur xs queue = admit d t (insert cur c) xs queue"
proof -
  have "(\<lambda>p queue. if d_arrival (lookup d (pid p)) \<le> t \<and> pid p \<notin> c \<and> pid p \<notin> set queue
                \<and> pid p \<noteq> cur then queue @ [pid p] else queue)
      = (\<lambda>p queue. if d_arrival (lookup d (pid p)) \<le> t \<and> pid p \<notin> insert cur c \<and> pid p \<notin> set queue
             then queue @ [pid p] else queue)"
    by (intro ext) auto
  then show ?thesis by (simp add: admit_new_def admit_def)
qed

lemma admit_Nil [simp]: "admit d t c [] queue = queue"
  by (simp add: admit_def)

lemma admit_Cons:
  "admit d t c (p # xs) queue =
     admit d t c xs (if d_arrival (lookup d (pid p)) \<le> t \<and> pid p \<notin> c \<and> pid p \<notin> set queue
                     then queue @ [pid p] else queue)"
  by (simp add: admit_def)

lemma admit_set:
  "set (admit d t c xs queue) =
     set queue \<union> {pid p |p. p \<in> set xs \<and> d_arrival (lookup d (pid p)) \<le> t \<and> pid p \<notin> c}"
proof (induction xs arbitrary: queue)
  case Nil
  then show ?case by simp
next
  case (Cons x xs)
  show ?case by (subst admit_Cons, subst Cons.IH) auto
qed

lemma admit_distinct: "distinct queue \<Longrightarrow> distinct (admit d t c xs queue)"
proof (induction xs arbitrary: queue)
  case Nil
  then show ?case by simp
next
  case (Cons x xs)
  show ?case by (subst admit_Cons, rule Cons.IH) (simp add: Cons.prems)
qed

lemma admit_append: "\<exists>new. admit d t c xs queue = queue @ new"
proof (induction xs arbitrary: queue)
  case Nil
  then show ?case by simp
next
  case (Cons x xs)
  let ?q = "(if d_arrival (lookup d (pid x)) \<le> t \<and> pid x \<notin> c \<and> pid x \<notin> set queue
                     then queue @ [pid x] else queue)"
  from Cons.IH[of ?q] obtain new where "admit d t c xs ?q = ?q @ new" by blast
  then have "admit d t c (x # xs) queue = ?q @ new" by (simp only: admit_Cons)
  then show ?case by (cases "d_arrival (lookup d (pid x)) \<le> t \<and> pid x \<notin> c \<and> pid x \<notin> set queue") auto
qed

lemma rr_body_idle:
  "admit (rr_dict s) (rr_time s) (rr_completed s) sp (rr_queue s) = [] \<Longrightarrow>
     rr_body q sp s = s\<lparr>rr_queue := [], rr_time := rr_time s + 1\<rparr>"
  by (simp add: rr_body_def)

lemma rr_body_dispatch:
  fixes q :: int and s :: rr_state and cur :: int
  assumes "admit (rr_dict s) (rr_time s) (rr_completed s) sp (rr_queue s) = cur # queue"
  defines "e \<equiv> min q (rr_remaining s cur)"
  defines "d \<equiv> (rr_dict s)(cur \<mapsto> (lookup (rr_dict s) cur)\<lparr>d_remaining := rr_remaining s cur - e\<rparr>)"
  shows "rr_time (rr_body q sp s) = rr_time s + e"
    and "rr_dict (rr_body q sp s) = d"
    and "rr_order (rr_body q sp s) = rr_order s @ [cur]"
    and "rr_finish (rr_body q sp s) = rr_finish s @ [rr_time s + e]"
    and "rr_queue (rr_body q sp s) =
          (if 0 < rr_remaining s cur - e
           then admit d (rr_time s + e) (insert cur (rr_completed s)) sp queue @ [cur]
           else admit d (rr_time s + e) (insert cur (rr_completed s)) sp queue)"
    and "rr_completed (rr_body q sp s) =
          (if 0 < rr_remaining s cur - e then rr_completed s else insert cur (rr_completed s))"
  using assms(1) by (simp_all add: rr_body_def Let_def e_def d_def rr_remaining_def admit_new_eq)

section \<open>Round robin: the invariant\<close>

lemma rr_invD:
  assumes "rr_inv procs q s"
  shows "\<And>p. p \<in> set procs \<Longrightarrow>
           rr_dict s (pid p) = Some \<lparr>d_arrival = arrival p, d_burst = burst p,
              d_priority = priority p, d_remaining = rr_remaining s (pid p)\<rparr>"
    and "\<And>p. p \<in> set procs \<Longrightarrow> 0 \<le> rr_remaining s (pid p)"
    and "\<And>p. p \<in> set procs \<Longrightarrow> (pid p \<in> rr_completed s \<longleftrightarrow> rr_remaining s (pid p) = 0)"
    and "\<And>p. p \<in> set procs \<Longrightarrow> 0 < rr_remaining s (pid p) \<Longrightarrow>
            burst p - rr_remaining s (pid p) = q * int (count_list (rr_order s) (pid p))"
    and "\<And>p. p \<in> set procs \<Longrightarrow> rr_remaining s (pid p) = 0 \<Longrightarrow>
            int (count_list (rr_order s) (pid p)) = (burst p + q - 1) div q"
    and "\<And>p. p \<in> set procs \<Longrightarrow> pid p \<in> set (rr_queue s) \<or> pid p \<in> rr_completed s \<Longrightarrow>
            arrival p \<le> rr_time s"
    and "rr_completed s \<subseteq> pid ` set procs"
    and "set (rr_queue s) \<subseteq> pid ` set procs"
    and "set (rr_queue s) \<inter> rr_completed s = {}"
    and "distinct (rr_queue s)"
    and "length (rr_finish s) = length (rr_order s)"
  using assms unfolding rr_inv_def by blast+

lemma rr_invI:
  assumes "\<And>p. p \<in> set procs \<Longrightarrow>
           rr_dict s (pid p) = Some \<lparr>d_arrival = arrival p, d_burst = burst p,
              d_priority = priority p, d_remaining = rr_remaining s (pid p)\<rparr>"
    and "\<And>p. p \<in> set procs \<Longrightarrow> 0 \<le> rr_remaining s (pid p)"
    and "\<And>p. p \<in> set procs \<Longrightarrow> (pid p \<in> rr_completed s \<longleftrightarrow> rr_remaining s (pid p) = 0)"
    and "\<And>p. p \<in> set procs \<Longrightarrow> 0 < rr_remaining s (pid p) \<Longrightarrow>
            burst p - rr_remaining s (pid p) = q * int (count_list (rr_order s) (pid p))"
    and "\<And>p. p \<in> set procs \<Longrightarrow> rr_remaining s (pid p) = 0 \<Longrightarrow>
            int (count_list (rr_order s) (pid p)) = (burst p + q - 1) div q"
    and "\<And>p. p \<in> set procs \<Longrightarrow> pid p \<in> set (rr_queue s) \<or> pid p \<in> rr_completed s \<Longrightarrow>
            arrival p \<le> rr_time s"
    and "rr_completed s \<subseteq> pid ` set procs"
    and "set (rr_queue s) \<subseteq> pid ` set procs"
    and "set (rr_queue s) \<inter> rr_completed s = {}"
    and "distinct (rr_queue s)"
    and "length (rr_finish s) = length (rr_order s)"
  shows "rr_inv procs q s"
  unfolding rr_inv_def using assms by blast

lemma rr_inv_arrival:
  "rr_inv procs q s \<Longrightarrow> p \<in> set procs \<Longrightarrow> d_arrival (lookup (rr_dict s) (pid p)) = arrival p"
  by (simp add: rr_invD(1) lookup_def)

lemma rr_inv_init:
  assumes "valid_batch procs" and "0 < q"
  shows "rr_inv procs q (rr_init procs)"
proof (rule rr_invI)
  have dist: "distinct (map pid procs)" using assms(1) by (simp add: valid_batch_def)
  have rem: "rr_remaining (rr_init procs) (pid p) = burst p" if "p \<in> set procs" for p
    using make_dict_at[OF dist that] by (simp add: rr_remaining_def rr_init_def lookup_def)
  fix p assume p: "p \<in> set procs"
  then have pos: "0 < burst p" using assms(1) by (simp add: valid_batch_def)
  show "rr_dict (rr_init procs) (pid p) = Some \<lparr>d_arrival = arrival p, d_burst = burst p,
              d_priority = priority p, d_remaining = rr_remaining (rr_init procs) (pid p)\<rparr>"
    using make_dict_at[OF dist p] rem[OF p] by (simp add: rr_init_def)
  show "0 \<le> rr_remaining (rr_init procs) (pid p)" using rem[OF p] pos by simp
  show "(pid p \<in> rr_completed (rr_init procs)) = (rr_remaining (rr_init procs) (pid p) = 0)"
    using rem[OF p] pos by (simp add: rr_init_def)
  show "burst p - rr_remaining (rr_init procs) (pid p)
      = q * int (count_list (rr_order (rr_init procs)) (pid p))"
    using rem[OF p] by (simp add: rr_init_def)
  show "int (count_list (rr_order (rr_init procs)) (pid p)) = (burst p + q - 1) div q"
    if "rr_remaining (rr_init procs) (pid p) = 0"
    using that rem[OF p] pos by simp
  show "arrival p \<le> rr_time (rr_init procs)"
    if "pid p \<in> set (rr_queue (rr_init procs)) \<or> pid p \<in> rr_completed (rr_init procs)"
    using that by (simp add: rr_init_def)
qed (simp_all add: rr_init_def)

lemma ceil_div_last:
  fixes q r b :: int
  assumes "0 < r" "r \<le> q" "b - r = q * c"
  shows "(b + q - 1) div q = c + 1"
proof (rule int_div_pos_eq[where r = "r - 1"])
  show "b + q - 1 = q * (c + 1) + (r - 1)" using assms(3) by (simp add: algebra_simps)
  show "0 \<le> r - 1" using assms(1) by simp
  show "r - 1 < q" using assms(2) by simp
qed

lemma rr_inv_idle:
  assumes inv: "rr_inv procs q s"
    and idle: "admit (rr_dict s) (rr_time s) (rr_completed s) sp (rr_queue s) = []"
  shows "rr_inv procs q (rr_body q sp s)"
proof -
  have b: "rr_body q sp s = s\<lparr>rr_queue := [], rr_time := rr_time s + 1\<rparr>"
    by (rule rr_body_idle[OF idle])
  have rem: "rr_remaining (rr_body q sp s) i = rr_remaining s i" for i
    by (simp add: b rr_remaining_def)
  show ?thesis
  proof (rule rr_invI)
    fix p assume p: "p \<in> set procs"
    show "rr_dict (rr_body q sp s) (pid p) = Some \<lparr>d_arrival = arrival p, d_burst = burst p,
              d_priority = priority p, d_remaining = rr_remaining (rr_body q sp s) (pid p)\<rparr>"
      using rr_invD(1)[OF inv p] by (simp add: rem) (simp add: b)
    show "0 \<le> rr_remaining (rr_body q sp s) (pid p)" using rr_invD(2)[OF inv p] by (simp add: rem)
    show "(pid p \<in> rr_completed (rr_body q sp s)) = (rr_remaining (rr_body q sp s) (pid p) = 0)"
      using rr_invD(3)[OF inv p] by (simp add: rem) (simp add: b)
    show "burst p - rr_remaining (rr_body q sp s) (pid p)
        = q * int (count_list (rr_order (rr_body q sp s)) (pid p))"
      if "0 < rr_remaining (rr_body q sp s) (pid p)"
      using rr_invD(4)[OF inv p] that by (simp add: rem) (simp add: b)
    show "int (count_list (rr_order (rr_body q sp s)) (pid p)) = (burst p + q - 1) div q"
      if "rr_remaining (rr_body q sp s) (pid p) = 0"
      using rr_invD(5)[OF inv p] that by (simp add: rem) (simp add: b)
    show "arrival p \<le> rr_time (rr_body q sp s)"
      if "pid p \<in> set (rr_queue (rr_body q sp s)) \<or> pid p \<in> rr_completed (rr_body q sp s)"
    proof -
      from that have "pid p \<in> rr_completed s" by (simp add: b)
      then have "arrival p \<le> rr_time s" using rr_invD(6)[OF inv p] by simp
      then show ?thesis by (simp add: b)
    qed
  next
    show "rr_completed (rr_body q sp s) \<subseteq> pid ` set procs" using rr_invD(7)[OF inv] by (simp add: b)
    show "length (rr_finish (rr_body q sp s)) = length (rr_order (rr_body q sp s))"
      using rr_invD(11)[OF inv] by (simp add: b)
  qed (simp_all add: b)
qed

text \<open>What is known when a process is taken from the queue.\<close>

lemma rr_dispatch_facts:
  assumes inv: "rr_inv procs q s" and v: "valid_batch procs" and sp: "set sp = set procs"
    and disp: "admit (rr_dict s) (rr_time s) (rr_completed s) sp (rr_queue s) = cur # queue"
  shows "\<exists>pc\<in>set procs. pid pc = cur \<and> arrival pc \<le> rr_time s"
    and "cur \<notin> rr_completed s" and "0 < rr_remaining s cur"
    and "cur \<notin> set queue" and "distinct queue"
    and "set queue \<subseteq> pid ` set procs" and "set queue \<inter> rr_completed s = {}"
    and "\<And>p. p \<in> set procs \<Longrightarrow> pid p \<in> set queue \<Longrightarrow> arrival p \<le> rr_time s"
proof -
  let ?A = "{pid p |p. p \<in> set sp \<and> d_arrival (lookup (rr_dict s) (pid p)) \<le> rr_time s
                   \<and> pid p \<notin> rr_completed s}"
  have inj: "inj_on pid (set procs)" using v by (simp add: valid_batch_def distinct_map)
  have set1: "set (cur # queue) = set (rr_queue s) \<union> ?A"
    using admit_set[of "rr_dict s" "rr_time s" "rr_completed s" sp "rr_queue s"] disp by simp
  have d1: "distinct (cur # queue)"
    using admit_distinct[OF rr_invD(10)[OF inv], of "rr_dict s" "rr_time s" "rr_completed s" sp] disp
    by simp
  have mem: "\<exists>p\<in>set procs. pid p = i \<and> arrival p \<le> rr_time s \<and> i \<notin> rr_completed s"
    if "i \<in> set (cur # queue)" for i
  proof -
    from that set1 have "i \<in> set (rr_queue s) \<or> i \<in> ?A" by blast
    then show ?thesis
    proof
      assume i: "i \<in> set (rr_queue s)"
      with rr_invD(8)[OF inv] obtain p where p: "p \<in> set procs" "pid p = i" by blast
      with rr_invD(6)[OF inv p(1)] i have "arrival p \<le> rr_time s" by simp
      moreover from i rr_invD(9)[OF inv] have "i \<notin> rr_completed s" by blast
      ultimately show ?thesis using p by blast
    next
      assume "i \<in> ?A"
      then obtain p where p: "p \<in> set sp" "pid p = i"
        "d_arrival (lookup (rr_dict s) (pid p)) \<le> rr_time s" "i \<notin> rr_completed s" by blast
      from p(1) sp have pp: "p \<in> set procs" by simp
      with p(3) rr_inv_arrival[OF inv pp] have "arrival p \<le> rr_time s" by simp
      with pp p(2,4) show ?thesis by blast
    qed
  qed
  from mem[of cur] obtain pc where pc: "pc \<in> set procs" "pid pc = cur" "arrival pc \<le> rr_time s"
    "cur \<notin> rr_completed s" by auto
  then show "\<exists>pc\<in>set procs. pid pc = cur \<and> arrival pc \<le> rr_time s" by blast
  show "cur \<notin> rr_completed s" by (rule pc(4))
  from rr_invD(2,3)[OF inv pc(1)] pc(2,4) show "0 < rr_remaining s cur" by simp
  from d1 show "cur \<notin> set queue" and "distinct queue" by simp_all
  show "set queue \<subseteq> pid ` set procs"
  proof
    fix i assume "i \<in> set queue"
    then have "i \<in> set (cur # queue)" by simp
    from mem[OF this] show "i \<in> pid ` set procs" by blast
  qed
  show "set queue \<inter> rr_completed s = {}"
  proof (rule ccontr)
    assume "set queue \<inter> rr_completed s \<noteq> {}"
    then obtain i where i: "i \<in> set queue" "i \<in> rr_completed s" by blast
    then have "i \<in> set (cur # queue)" by simp
    from mem[OF this] i(2) show False by blast
  qed
  show "arrival p \<le> rr_time s" if "p \<in> set procs" "pid p \<in> set queue" for p
  proof -
    from that(2) have "pid p \<in> set (cur # queue)" by simp
    from mem[OF this] obtain p' where p': "p' \<in> set procs" "pid p' = pid p" "arrival p' \<le> rr_time s"
      by blast
    with inj that(1) have "p' = p" by (simp add: inj_on_def)
    with p'(3) show ?thesis by simp
  qed
qed

lemma rr_inv_dispatch:
  assumes inv: "rr_inv procs q s" and v: "valid_batch procs" and q: "0 < q"
    and sp: "set sp = set procs"
    and disp: "admit (rr_dict s) (rr_time s) (rr_completed s) sp (rr_queue s) = cur # queue"
  shows "rr_inv procs q (rr_body q sp s)"
proof -
  define r where "r = rr_remaining s cur"
  define e where "e = min q r"
  define s' where "s' = rr_body q sp s"
  define queue3 where
    "queue3 = admit (rr_dict s') (rr_time s + e) (insert cur (rr_completed s)) sp queue"
  note facts = rr_dispatch_facts[OF inv v sp disp]
  from facts(1) obtain pc where pc: "pc \<in> set procs" "pid pc = cur" "arrival pc \<le> rr_time s"
    by blast
  have inj: "inj_on pid (set procs)" using v by (simp add: valid_batch_def distinct_map)
  have same: "p = pc" if "p \<in> set procs" "pid p = cur" for p
    using inj that pc(1,2) by (simp add: inj_on_def)
  have r: "0 < r" using facts(3) by (simp add: r_def)
  have e: "1 \<le> e" "e \<le> r" using r q by (simp_all add: e_def)
  note b = rr_body_dispatch[OF disp, of q, folded r_def, folded e_def, folded s'_def]
  have time': "rr_time s' = rr_time s + e" by (rule b(1))
  have dict': "rr_dict s' = (rr_dict s)(cur \<mapsto> (lookup (rr_dict s) cur)\<lparr>d_remaining := r - e\<rparr>)"
    by (rule b(2))
  have order': "rr_order s' = rr_order s @ [cur]" by (rule b(3))
  have finish': "rr_finish s' = rr_finish s @ [rr_time s + e]" by (rule b(4))
  have queue': "rr_queue s' = (if 0 < r - e then queue3 @ [cur] else queue3)"
    using b(5) by (simp add: queue3_def dict')
  have completed': "rr_completed s' = (if 0 < r - e then rr_completed s else insert cur (rr_completed s))"
    by (rule b(6))
  have rem': "rr_remaining s' i = (if i = cur then r - e else rr_remaining s i)" for i
    by (simp add: rr_remaining_def dict' lookup_def)
  have entry': "rr_dict s' (pid p) = Some \<lparr>d_arrival = arrival p, d_burst = burst p,
              d_priority = priority p, d_remaining = rr_remaining s' (pid p)\<rparr>"
    if p: "p \<in> set procs" for p
  proof (cases "pid p = cur")
    case True
    with same[OF p] have "p = pc" by simp
    with rr_invD(1)[OF inv pc(1)] pc(2) show ?thesis
      by (simp add: rem' dict' lookup_def)
  next
    case False
    with rr_invD(1)[OF inv p] show ?thesis by (simp add: rem' dict')
  qed
  have arr': "d_arrival (lookup (rr_dict s') (pid p)) = arrival p" if "p \<in> set procs" for p
    using entry'[OF that] by (simp add: lookup_def)
  have set3: "set queue3 = set queue \<union>
      {pid p |p. p \<in> set sp \<and> d_arrival (lookup (rr_dict s') (pid p)) \<le> rr_time s + e
                 \<and> pid p \<notin> insert cur (rr_completed s)}"
    unfolding queue3_def by (rule admit_set)
  have mem3: "\<exists>p\<in>set procs. pid p = i \<and> arrival p \<le> rr_time s + e \<and> i \<noteq> cur
                 \<and> i \<notin> rr_completed s"
    if "i \<in> set queue3" for i
  proof -
    from that set3 have "i \<in> set queue \<or> (\<exists>p. i = pid p \<and> p \<in> set sp
        \<and> d_arrival (lookup (rr_dict s') (pid p)) \<le> rr_time s + e
        \<and> pid p \<notin> insert cur (rr_completed s))" by blast
    then show ?thesis
    proof
      assume i: "i \<in> set queue"
      with facts(6) obtain p where p: "p \<in> set procs" "pid p = i" by blast
      with facts(8)[OF p(1)] i have "arrival p \<le> rr_time s" by simp
      with e(1) have "arrival p \<le> rr_time s + e" by simp
      moreover from i facts(4) have "i \<noteq> cur" by blast
      moreover from i facts(7) have "i \<notin> rr_completed s" by blast
      ultimately show ?thesis using p by blast
    next
      assume "\<exists>p. i = pid p \<and> p \<in> set sp
        \<and> d_arrival (lookup (rr_dict s') (pid p)) \<le> rr_time s + e
        \<and> pid p \<notin> insert cur (rr_completed s)"
      then obtain p where p: "i = pid p" "p \<in> set sp"
        "d_arrival (lookup (rr_dict s') (pid p)) \<le> rr_time s + e"
        "pid p \<notin> insert cur (rr_completed s)" by blast
      from p(2) sp have pp: "p \<in> set procs" by simp
      with p(3) arr'[OF pp] have "arrival p \<le> rr_time s + e" by simp
      with pp p(1,4) show ?thesis by blast
    qed
  qed
  have d3: "distinct queue3" unfolding queue3_def by (rule admit_distinct[OF facts(5)])
  have cur3: "cur \<notin> set queue3" using mem3 by blast
  have memq': "i \<in> set queue3 \<or> (i = cur \<and> 0 < r - e)" if "i \<in> set (rr_queue s')" for i
    using that by (auto simp: queue' split: if_splits)
  have "rr_inv procs q s'"
  proof (rule rr_invI)
    fix p assume p: "p \<in> set procs"
    show "rr_dict s' (pid p) = Some \<lparr>d_arrival = arrival p, d_burst = burst p,
              d_priority = priority p, d_remaining = rr_remaining s' (pid p)\<rparr>"
      by (rule entry'[OF p])
    show "0 \<le> rr_remaining s' (pid p)"
      using rr_invD(2)[OF inv p] e(2) by (simp add: rem')
    show "(pid p \<in> rr_completed s') = (rr_remaining s' (pid p) = 0)"
    proof (cases "pid p = cur")
      case True
      with e(2) facts(2) show ?thesis by (auto simp: rem' completed')
    next
      case False
      with rr_invD(3)[OF inv p] show ?thesis by (simp add: rem' completed')
    qed
    show "burst p - rr_remaining s' (pid p) = q * int (count_list (rr_order s') (pid p))"
      if pos: "0 < rr_remaining s' (pid p)"
    proof (cases "pid p = cur")
      case True
      with same[OF p] have ppc: "p = pc" by simp
      from pos True have gt: "0 < r - e" by (simp add: rem')
      then have eq: "e = q" by (simp add: e_def min_def split: if_splits)
      from rr_invD(4)[OF inv pc(1)] r pc(2)
      have "burst pc - r = q * int (count_list (rr_order s) cur)" by (simp add: r_def)
      then have "burst pc - (r - q) = q * (int (count_list (rr_order s) cur) + 1)"
        by (simp add: algebra_simps)
      then show ?thesis using True ppc eq by (simp add: rem' order')
    next
      case False
      with pos have "0 < rr_remaining s (pid p)" by (simp add: rem')
      from rr_invD(4)[OF inv p this] False show ?thesis by (simp add: rem' order')
    qed
    show "int (count_list (rr_order s') (pid p)) = (burst p + q - 1) div q"
      if z: "rr_remaining s' (pid p) = 0"
    proof (cases "pid p = cur")
      case True
      with same[OF p] have ppc: "p = pc" by simp
      from z True have re: "r = e" by (simp add: rem')
      then have le: "r \<le> q" by (simp add: e_def)
      from rr_invD(4)[OF inv pc(1)] r pc(2)
      have "burst pc - r = q * int (count_list (rr_order s) cur)" by (simp add: r_def)
      from ceil_div_last[OF r le this]
      show ?thesis using True ppc by (simp add: order')
    next
      case False
      with z have "rr_remaining s (pid p) = 0" by (simp add: rem')
      from rr_invD(5)[OF inv p this] False show ?thesis by (simp add: order')
    qed
    show "arrival p \<le> rr_time s'"
      if h: "pid p \<in> set (rr_queue s') \<or> pid p \<in> rr_completed s'"
    proof -
      from h have "pid p \<in> set queue3 \<or> pid p = cur \<or> pid p \<in> rr_completed s"
        using memq'[of "pid p"] by (auto simp: completed' split: if_splits)
      then have "arrival p \<le> rr_time s + e"
      proof (elim disjE)
        assume "pid p \<in> set queue3"
        from mem3[OF this] obtain p' where p': "p' \<in> set procs" "pid p' = pid p"
          "arrival p' \<le> rr_time s + e" by blast
        with inj p have "p' = p" by (simp add: inj_on_def)
        with p'(3) show ?thesis by simp
      next
        assume "pid p = cur"
        with same[OF p] pc(3) e(1) show ?thesis by simp
      next
        assume "pid p \<in> rr_completed s"
        with rr_invD(6)[OF inv p] e(1) show ?thesis by simp
      qed
      then show ?thesis by (simp add: time')
    qed
  next
    show "rr_completed s' \<subseteq> pid ` set procs"
      using rr_invD(7)[OF inv] pc(1,2) by (auto simp: completed')
    show "set (rr_queue s') \<subseteq> pid ` set procs"
    proof
      fix i assume "i \<in> set (rr_queue s')"
      from memq'[OF this] show "i \<in> pid ` set procs"
      proof
        assume "i \<in> set queue3"
        from mem3[OF this] show ?thesis by blast
      next
        assume "i = cur \<and> 0 < r - e"
        with pc(1,2) show ?thesis by blast
      qed
    qed
    show "set (rr_queue s') \<inter> rr_completed s' = {}"
    proof (rule ccontr)
      assume "set (rr_queue s') \<inter> rr_completed s' \<noteq> {}"
      then obtain i where i: "i \<in> set (rr_queue s')" "i \<in> rr_completed s'" by blast
      from memq'[OF i(1)] show False
      proof
        assume i3: "i \<in> set queue3"
        from mem3[OF this] have "i \<noteq> cur" "i \<notin> rr_completed s" by blast+
        with i(2) show False by (simp add: completed' split: if_splits)
      next
        assume "i = cur \<and> 0 < r - e"
        with i(2) facts(2) show False by (simp add: completed')
      qed
    qed
    show "distinct (rr_queue s')" using d3 cur3 by (simp add: queue')
    show "length (rr_finish s') = length (rr_order s')"
      using rr_invD(11)[OF inv] by (simp add: finish' order')
  qed
  then show ?thesis by (simp add: s'_def)
qed

lemma rr_inv_body:
  assumes "rr_inv procs q s" and "valid_batch procs" and "0 < q" and "set sp = set procs"
  shows "rr_inv procs q (rr_body q sp s)"
proof (cases "admit (rr_dict s) (rr_time s) (rr_completed s) sp (rr_queue s)")
  case Nil
  then show ?thesis by (rule rr_inv_idle[OF assms(1)])
next
  case (Cons cur queue)
  then show ?thesis by (rule rr_inv_dispatch[OF assms])
qed

lemma rr_inv_funpow:
  assumes "valid_batch procs" and "0 < q" and "set sp = set procs"
  shows "rr_inv procs q ((rr_body q sp ^^ k) (rr_init procs))"
proof (induction k)
  case 0
  show ?case using rr_inv_init[OF assms(1,2)] by simp
next
  case (Suc k)
  then show ?case using rr_inv_body[OF _ assms] by simp
qed

section \<open>Round robin: termination and the final state\<close>

lemma rr_remaining_idle:
  "admit (rr_dict s) (rr_time s) (rr_completed s) sp (rr_queue s) = [] \<Longrightarrow>
     rr_remaining (rr_body q sp s) i = rr_remaining s i"
  by (simp add: rr_body_idle rr_remaining_def)

lemma rr_remaining_dispatch:
  "admit (rr_dict s) (rr_time s) (rr_completed s) sp (rr_queue s) = cur # queue \<Longrightarrow>
     rr_remaining (rr_body q sp s) i =
       (if i = cur then rr_remaining s cur - min q (rr_remaining s cur) else rr_remaining s i)"
  by (simp add: rr_body_dispatch(2) rr_remaining_def lookup_def)

lemma card_pids: "distinct (map pid procs) \<Longrightarrow> card (pid ` set procs) = length procs"
  using distinct_card[of "map pid procs"] by simp

lemma rr_uncompleted:
  assumes inv: "rr_inv procs q s" and v: "valid_batch procs" and c: "rr_cond (length procs) s"
  shows "\<exists>p\<in>set procs. pid p \<notin> rr_completed s"
proof (rule ccontr)
  assume "\<not> (\<exists>p\<in>set procs. pid p \<notin> rr_completed s)"
  then have "pid ` set procs \<subseteq> rr_completed s" by blast
  with rr_invD(7)[OF inv] have "rr_completed s = pid ` set procs" by blast
  then have "card (rr_completed s) = length procs"
    using v by (simp add: valid_batch_def card_pids)
  with c show False by (simp add: rr_cond_def)
qed

lemma rr_body_decreases:
  assumes inv: "rr_inv procs q s" and v: "valid_batch procs" and q: "0 < q"
    and sp: "set sp = set procs" and c: "rr_cond (length procs) s"
  shows "(rr_body q sp s, s) \<in>
     measures [\<lambda>s. nat (\<Sum>p\<in>set procs. rr_remaining s (pid p)),
               \<lambda>s. nat (Max (set (map arrival procs)) - rr_time s)]"
proof (cases "admit (rr_dict s) (rr_time s) (rr_completed s) sp (rr_queue s)")
  case Nil
  from rr_uncompleted[OF inv v c] obtain p where p: "p \<in> set procs" "pid p \<notin> rr_completed s"
    by blast
  have "pid p \<notin> set (admit (rr_dict s) (rr_time s) (rr_completed s) sp (rr_queue s))"
    using Nil by simp
  then have "\<not> d_arrival (lookup (rr_dict s) (pid p)) \<le> rr_time s"
    using p sp unfolding admit_set by blast
  with rr_inv_arrival[OF inv p(1)] have "rr_time s < arrival p" by simp
  moreover have "arrival p \<le> Max (set (map arrival procs))" using p(1) by simp
  ultimately have "nat (Max (set (map arrival procs)) - (rr_time s + 1))
      < nat (Max (set (map arrival procs)) - rr_time s)" by linarith
  then show ?thesis using Nil by (simp add: rr_remaining_idle) (simp add: rr_body_idle)
next
  case (Cons cur queue)
  note facts = rr_dispatch_facts[OF inv v sp Cons]
  from facts(1) obtain pc where pc: "pc \<in> set procs" "pid pc = cur" by blast
  have inj: "inj_on pid (set procs)" using v by (simp add: valid_batch_def distinct_map)
  let ?f = "\<lambda>p. rr_remaining s (pid p)" and ?g = "\<lambda>p. rr_remaining (rr_body q sp s) (pid p)"
  have le: "?g p \<le> ?f p" if "p \<in> set procs" for p
    using facts(3) q by (simp add: rr_remaining_dispatch[OF Cons])
  have lt: "?g pc < ?f pc" using facts(3) q pc(2) by (simp add: rr_remaining_dispatch[OF Cons])
  have "sum ?g (set procs) < sum ?f (set procs)"
    by (rule sum_strict_mono_ex1) (use le lt pc(1) in auto)
  moreover have "0 \<le> sum ?g (set procs)"
    by (rule sum_nonneg) (use rr_invD(2)[OF rr_inv_body[OF inv v q sp]] in simp)
  ultimately show ?thesis by simp
qed

lemma rr_loop_terminates:
  assumes v: "valid_batch procs" and q: "0 < q" and sp: "set sp = set procs"
  shows "\<exists>t. while_loop (rr_cond (length procs)) (rr_body q sp) (rr_init procs) = Some t"
proof (rule while_loop_terminates[where P = "rr_inv procs q"])
  show "wf (measures [\<lambda>s. nat (\<Sum>p\<in>set procs. rr_remaining s (pid p)),
               \<lambda>s. nat (Max (set (map arrival procs)) - rr_time s)])" by simp
  show "rr_inv procs q (rr_init procs)" by (rule rr_inv_init[OF v q])
  fix x assume "rr_inv procs q x" "rr_cond (length procs) x"
  then show "rr_inv procs q (rr_body q sp x) \<and> (rr_body q sp x, x) \<in>
     measures [\<lambda>s. nat (\<Sum>p\<in>set procs. rr_remaining s (pid p)),
               \<lambda>s. nat (Max (set (map arrival procs)) - rr_time s)]"
    using rr_inv_body[OF _ v q sp] rr_body_decreases[OF _ v q sp] by blast
qed

lemma rr_loop_final:
  assumes v: "valid_batch procs" and q: "0 < q" and sp: "set sp = set procs"
    and t: "while_loop (rr_cond (length procs)) (rr_body q sp) (rr_init procs) = Some t"
  shows "rr_inv procs q t" and "rr_completed t = pid ` set procs"
proof -
  have *: "rr_inv procs q t \<and> \<not> rr_cond (length procs) t"
    by (rule while_loop_rule[OF t]) (simp_all add: rr_inv_init[OF v q] rr_inv_body[OF _ v q sp])
  then show inv: "rr_inv procs q t" by simp
  have "finite (pid ` set procs)" by simp
  moreover have "rr_completed t \<subseteq> pid ` set procs" by (rule rr_invD(7)[OF inv])
  moreover have "card (pid ` set procs) \<le> card (rr_completed t)"
    using * v by (simp add: rr_cond_def valid_batch_def card_pids)
  ultimately show "rr_completed t = pid ` set procs" by (rule card_seteq)
qed

lemma rr_final_counts:
  assumes inv: "rr_inv procs q t" and c: "rr_completed t = pid ` set procs" and p: "p \<in> set procs"
  shows "rr_remaining t (pid p) = 0"
    and "int (count_list (rr_order t) (pid p)) = (burst p + q - 1) div q"
proof -
  from p c have "pid p \<in> rr_completed t" by simp
  with rr_invD(3)[OF inv p] show z: "rr_remaining t (pid p) = 0" by simp
  from rr_invD(5)[OF inv p z] show "int (count_list (rr_order t) (pid p)) = (burst p + q - 1) div q" .
qed

lemma rr_executed_eq:
  assumes v: "valid_batch procs" and q: "0 < q" and sp: "set sp = set procs" and p: "p \<in> set procs"
  shows "rr_executed q sp (rr_init procs) k (pid p)
     = burst p - rr_remaining ((rr_body q sp ^^ k) (rr_init procs)) (pid p)"
proof (induction k)
  case 0
  have "distinct (map pid procs)" using v by (simp add: valid_batch_def)
  from make_dict_at[OF this p] show ?case by (simp add: rr_remaining_def rr_init_def lookup_def)
next
  case (Suc k)
  define s where "s = (rr_body q sp ^^ k) (rr_init procs)"
  have inv: "rr_inv procs q s" unfolding s_def by (rule rr_inv_funpow[OF v q sp])
  have step: "(if rr_order (rr_body q sp s) = rr_order s @ [pid p]
               then rr_time (rr_body q sp s) - rr_time s else 0)
      = rr_remaining s (pid p) - rr_remaining (rr_body q sp s) (pid p)"
  proof (cases "admit (rr_dict s) (rr_time s) (rr_completed s) sp (rr_queue s)")
    case Nil
    then show ?thesis by (simp add: rr_remaining_idle) (simp add: rr_body_idle)
  next
    case (Cons cur queue)
    show ?thesis
      by (auto simp: rr_remaining_dispatch[OF Cons] rr_body_dispatch(1,3)[OF Cons])
  qed
  have "rr_executed q sp (rr_init procs) (Suc k) (pid p)
      = rr_executed q sp (rr_init procs) k (pid p) +
        (if rr_order (rr_body q sp s) = rr_order s @ [pid p]
               then rr_time (rr_body q sp s) - rr_time s else 0)"
    by (simp add: Let_def s_def)
  also have "\<dots> = burst p - rr_remaining (rr_body q sp s) (pid p)"
    unfolding step Suc.IH by (simp add: s_def)
  finally show ?case by (simp add: s_def)
qed

section \<open>First come, first served; further facts on round robin\<close>

lemma fcfs_loop_result:
  "fcfs_loop xs time start finish order = (st, fi, ord) \<Longrightarrow>
     ord = order @ map pid xs \<and> length fi = length finish + length xs"
proof (induction xs arbitrary: time start finish order)
  case Nil
  then show ?case by simp
next
  case (Cons x xs)
  from Cons.prems Cons.IH show ?case by (simp add: Let_def) fastforce
qed

lemma fcfs_result:
  "\<exists>f. snd (fcfs schedule) = Schedule f (map pid (sort_key arrival (processes schedule)))
       \<and> length f = length (processes schedule)"
proof -
  obtain st fi ord where l: "fcfs_loop (sort_key arrival (processes schedule)) 0 [] [] [] = (st, fi, ord)"
    by (metis prod_cases3)
  from fcfs_loop_result[OF l] have "ord = map pid (sort_key arrival (processes schedule))"
    and "length fi = length (processes schedule)" by simp_all
  then show ?thesis by (simp add: fcfs_def l Let_def)
qed

lemma rr_lengths_body:
  "length (rr_finish s) = length (rr_order s) \<Longrightarrow>
     length (rr_finish (rr_body q sp s)) = length (rr_order (rr_body q sp s))"
proof (cases "admit (rr_dict s) (rr_time s) (rr_completed s) sp (rr_queue s)")
  case Nil
  assume "length (rr_finish s) = length (rr_order s)"
  then show ?thesis by (simp add: rr_body_idle[OF Nil])
next
  case (Cons cur queue)
  assume "length (rr_finish s) = length (rr_order s)"
  then show ?thesis by (simp add: rr_body_dispatch(3,4)[OF Cons])
qed

lemma rr_order_pids:
  assumes v: "valid_batch procs" and q: "0 < q" and sp: "set sp = set procs"
  shows "set (rr_order ((rr_body q sp ^^ k) (rr_init procs))) \<subseteq> pid ` set procs"
proof (induction k)
  case 0
  show ?case by (simp add: rr_init_def)
next
  case (Suc k)
  define s where "s = (rr_body q sp ^^ k) (rr_init procs)"
  have inv: "rr_inv procs q s" unfolding s_def by (rule rr_inv_funpow[OF v q sp])
  have "set (rr_order (rr_body q sp s)) \<subseteq> pid ` set procs"
  proof (cases "admit (rr_dict s) (rr_time s) (rr_completed s) sp (rr_queue s)")
    case Nil
    with Suc.IH[folded s_def] show ?thesis by (simp add: rr_body_idle[OF Nil])
  next
    case (Cons cur queue)
    from rr_dispatch_facts(1)[OF inv v sp Cons] have "cur \<in> pid ` set procs" by blast
    with Suc.IH[folded s_def] show ?thesis by (simp add: rr_body_dispatch(3)[OF Cons])
  qed
  then show ?case by (simp add: s_def)
qed

text \<open>
  With a quantum that is not positive no slice reduces the remaining time, so no process
  of a valid batch is ever completed and the loop is never left.
\<close>

lemma rr_loop_diverges:
  assumes v: "valid_batch procs" and ne: "procs \<noteq> []" and q: "q \<le> 0"
    and sp: "set sp = set procs"
  shows "while_loop (rr_cond (length procs)) (rr_body q sp) (rr_init procs) = None"
proof (rule while_loop_diverges[where P = "\<lambda>s. rr_completed s = {} \<and>
          (\<forall>p\<in>set procs. 0 < rr_remaining s (pid p)) \<and> set (rr_queue s) \<subseteq> pid ` set procs"])
  have dist: "distinct (map pid procs)" using v by (simp add: valid_batch_def)
  have "rr_remaining (rr_init procs) (pid p) = burst p" if "p \<in> set procs" for p
    using make_dict_at[OF dist that] by (simp add: rr_remaining_def rr_init_def lookup_def)
  then show "rr_completed (rr_init procs) = {} \<and>
          (\<forall>p\<in>set procs. 0 < rr_remaining (rr_init procs) (pid p)) \<and>
          set (rr_queue (rr_init procs)) \<subseteq> pid ` set procs"
    using v by (simp add: rr_init_def valid_batch_def)
next
  fix s assume P: "rr_completed s = {} \<and>
          (\<forall>p\<in>set procs. 0 < rr_remaining s (pid p)) \<and> set (rr_queue s) \<subseteq> pid ` set procs"
  have c: "rr_cond (length procs) s" using P ne by (simp add: rr_cond_def)
  have "rr_completed (rr_body q sp s) = {} \<and>
          (\<forall>p\<in>set procs. 0 < rr_remaining (rr_body q sp s) (pid p)) \<and>
          set (rr_queue (rr_body q sp s)) \<subseteq> pid ` set procs"
  proof (cases "admit (rr_dict s) (rr_time s) (rr_completed s) sp (rr_queue s)")
    case Nil
    with P show ?thesis by (simp add: rr_remaining_idle[OF Nil]) (simp add: rr_body_idle[OF Nil])
  next
    case (Cons cur queue)
    have sub: "set (cur # queue) \<subseteq> pid ` set procs"
      using admit_set[of "rr_dict s" "rr_time s" "rr_completed s" sp "rr_queue s"] P sp
      unfolding Cons by auto
    then obtain pc where pc: "pc \<in> set procs" "pid pc = cur" by auto
    with P have r: "0 < rr_remaining s cur" by blast
    with q have e: "min q (rr_remaining s cur) = q" by simp
    have rem: "\<forall>p\<in>set procs. 0 < rr_remaining (rr_body q sp s) (pid p)"
      using P r q by (simp add: rr_remaining_dispatch[OF Cons] e)
    have stay: "0 < rr_remaining s cur - min q (rr_remaining s cur)" using r q e by simp
    have comp: "rr_completed (rr_body q sp s) = {}"
      using P stay by (simp add: rr_body_dispatch(6)[OF Cons])
    have adm: "set (admit d' t' c' sp queue) \<subseteq> pid ` set procs" for d' t' c'
      using sub sp unfolding admit_set by auto
    have "set (rr_queue (rr_body q sp s)) \<subseteq> pid ` set procs"
      unfolding rr_body_dispatch(5)[OF Cons] using adm sub by simp
    with rem comp show ?thesis by simp
  qed
  with c show "rr_cond (length procs) s \<and> (rr_completed (rr_body q sp s) = {} \<and>
          (\<forall>p\<in>set procs. 0 < rr_remaining (rr_body q sp s) (pid p)) \<and>
          set (rr_queue (rr_body q sp s)) \<subseteq> pid ` set procs)" by simp
qed

section \<open>The operations on a valid batch\<close>

lemma valid_batch_sorted:
  assumes "valid_batch procs"
  shows "distinct (sort_key arrival procs)" and "distinct (map pid (sort_key arrival procs))"
    and "set (sort_key arrival procs) = set procs"
    and "length (sort_key arrival procs) = length procs"
proof -
  have d: "distinct (map pid procs)" using assms by (simp add: valid_batch_def)
  then have "distinct procs" and inj: "inj_on pid (set procs)" by (simp_all add: distinct_map)
  then show "distinct (sort_key arrival procs)" by simp
  with inj show "distinct (map pid (sort_key arrival procs))" by (simp add: distinct_map)
qed simp_all

lemma np_schedule_valid:
  assumes "valid_batch (processes schedule)"
  shows "\<exists>t::np_state. np_schedule key schedule =
            Some (schedule\<lparr>processes := sort_key arrival (processes schedule)\<rparr>,
                  Schedule (np_finish t) (np_order t))
          \<and> np_order t = map pid (np_completed t) \<and> distinct (np_completed t)
          \<and> set (np_completed t) = set (processes schedule)
          \<and> length (np_completed t) = length (processes schedule)
          \<and> length (np_finish t) = length (np_order t)"
proof -
  let ?sp = "sort_key arrival (processes schedule)"
  note s = valid_batch_sorted[OF assms]
  from np_loop_terminates[OF s(1), of key] obtain t
    where t: "while_loop (np_cond (length ?sp)) (np_body key ?sp) np_init = Some t" by blast
  note fin = np_loop_final[OF t]
  note fs = np_final_set[OF fin]
  have "np_schedule key schedule = Some (schedule\<lparr>processes := ?sp\<rparr>,
                  Schedule (np_finish t) (np_order t))"
    using t by (simp add: np_schedule_def Let_def)
  moreover have "np_order t = map pid (np_completed t)" "distinct (np_completed t)"
    "length (np_finish t) = length (np_order t)"
    using fin(1) by (simp_all add: np_inv_def)
  moreover have "set (np_completed t) = set (processes schedule)"
    "length (np_completed t) = length (processes schedule)"
    using fs s(3,4) by simp_all
  ultimately have "np_schedule key schedule =
            Some (schedule\<lparr>processes := sort_key arrival (processes schedule)\<rparr>,
                  Schedule (np_finish t) (np_order t))
          \<and> np_order t = map pid (np_completed t) \<and> distinct (np_completed t)
          \<and> set (np_completed t) = set (processes schedule)
          \<and> length (np_completed t) = length (processes schedule)
          \<and> length (np_finish t) = length (np_order t)" by simp
  then show ?thesis by (rule exI)
qed

lemma np_schedule_counts:
  assumes v: "valid_batch (processes schedule)"
  shows "\<exists>x f ord. np_schedule key schedule = Some (x, Schedule f ord)
          \<and> length ord = length (processes schedule)
          \<and> pid ` set (processes schedule) = set ord
          \<and> (\<forall>p\<in>set (processes schedule). count_list ord (pid p) = 1)"
proof -
  from np_schedule_valid[OF v, of key] obtain t :: np_state where
    r: "np_schedule key schedule =
            Some (schedule\<lparr>processes := sort_key arrival (processes schedule)\<rparr>,
                  Schedule (np_finish t) (np_order t))"
    and o: "np_order t = map pid (np_completed t)" and d: "distinct (np_completed t)"
    and s: "set (np_completed t) = set (processes schedule)"
    and l: "length (np_completed t) = length (processes schedule)" by blast
  have inj: "inj_on pid (set (np_completed t))"
    using v s by (simp add: valid_batch_def distinct_map)
  have "count_list (np_order t) (pid p) = 1" if "p \<in> set (processes schedule)" for p
  proof -
    from that s have p: "p \<in> set (np_completed t)" by simp
    have "count_list (map pid (np_completed t)) (pid p) = count_list (np_completed t) p"
      using inj p by (rule count_list_inj_map)
    with count_list_distinct[OF d p] o show ?thesis by simp
  qed
  moreover have "length (np_order t) = length (processes schedule)" using o l by simp
  moreover have "pid ` set (processes schedule) = set (np_order t)" using o s by simp
  ultimately show ?thesis using r by blast
qed

lemma round_robin_valid:
  assumes v: "valid_batch (processes schedule)" and qu: "quantum schedule = Some q" and q: "0 < q"
  shows "\<exists>k. round_robin schedule =
            Some (schedule, Schedule
              (rr_finish ((rr_body q (sort_key arrival (processes schedule)) ^^ k)
                   (rr_init (processes schedule))))
              (rr_order ((rr_body q (sort_key arrival (processes schedule)) ^^ k)
                   (rr_init (processes schedule)))))
          \<and> rr_inv (processes schedule) q
               ((rr_body q (sort_key arrival (processes schedule)) ^^ k)
                   (rr_init (processes schedule)))
          \<and> rr_completed ((rr_body q (sort_key arrival (processes schedule)) ^^ k)
                   (rr_init (processes schedule))) = pid ` set (processes schedule)"
proof -
  let ?procs = "processes schedule"
  let ?sp = "sort_key arrival ?procs"
  have sp: "set ?sp = set ?procs" by simp
  from rr_loop_terminates[OF v q sp] obtain t
    where t: "while_loop (rr_cond (length ?procs)) (rr_body q ?sp) (rr_init ?procs) = Some t"
    by blast
  from while_loop_reach[OF t] obtain k where k: "t = (rr_body q ?sp ^^ k) (rr_init ?procs)" ..
  note fin = rr_loop_final[OF v q sp t]
  have "round_robin schedule = Some (schedule, Schedule (rr_finish t) (rr_order t))"
    using t qu by (simp add: round_robin_def Let_def)
  with fin k show ?thesis by blast
qed

lemma ceil_div_pos:
  fixes b q :: int
  assumes "0 < b" "0 < q"
  shows "1 \<le> (b + q - 1) div q"
proof -
  have "q div q \<le> (b + q - 1) div q" by (rule zdiv_mono1) (use assms in simp_all)
  with assms(2) show ?thesis by simp
qed

section \<open>Lengths of the answer; the quantum\<close>

lemma np_schedule_lengths:
  assumes "np_schedule key schedule = Some (x, Schedule f ord)"
  shows "length ord = length f"
proof -
  let ?sp = "sort_key arrival (processes schedule)"
  from assms obtain t :: np_state
    where t: "while_loop (np_cond (length ?sp)) (np_body key ?sp) np_init = Some t"
      and r: "f = np_finish t" "ord = np_order t"
    by (auto simp: np_schedule_def Let_def split: option.splits)
  from np_loop_final(1)[OF t] r show ?thesis by (simp add: np_inv_def)
qed

lemma round_robin_lengths:
  assumes "round_robin schedule = Some (x, Schedule f ord)"
  shows "length ord = length f"
proof -
  from assms obtain q t
    where t: "while_loop (rr_cond (length (processes schedule)))
                (rr_body q (sort_key arrival (processes schedule)))
                (rr_init (processes schedule)) = Some t"
      and r: "f = rr_finish t" "ord = rr_order t"
    by (auto simp: round_robin_def Let_def split: option.splits)
  have "length (rr_finish t) = length (rr_order t) \<and>
      \<not> rr_cond (length (processes schedule)) t"
    by (rule while_loop_rule[OF t]) (simp_all add: rr_init_def rr_lengths_body)
  with r show ?thesis by simp
qed

text \<open>
  Claim C10. Whenever an operation answers with a schedule, its \<open>order\<close> and \<open>finish\<close>
  lists have the same length; this holds for every request, valid or not.
\<close>

theorem order_finish_same_length:
  "(\<forall>f ord. snd (fcfs schedule) = Schedule f ord \<longrightarrow> length ord = length f) \<and>
   (\<forall>x f ord. sjf schedule = Some (x, Schedule f ord) \<longrightarrow> length ord = length f) \<and>
   (\<forall>x f ord. priority_scheduling schedule = Some (x, Schedule f ord)
       \<longrightarrow> length ord = length f) \<and>
   (\<forall>x f ord. round_robin schedule = Some (x, Schedule f ord) \<longrightarrow> length ord = length f)"
proof (intro conjI allI impI)
  fix f ord assume a: "snd (fcfs schedule) = Schedule f ord"
  from fcfs_result[of schedule] obtain f' where
    "snd (fcfs schedule) = Schedule f' (map pid (sort_key arrival (processes schedule)))"
    "length f' = length (processes schedule)" by blast
  with a show "length ord = length f" by auto
next
  fix x f ord assume "sjf schedule = Some (x, Schedule f ord)"
  then show "length ord = length f" unfolding sjf_def by (rule np_schedule_lengths)
next
  fix x f ord assume "priority_scheduling schedule = Some (x, Schedule f ord)"
  then show "length ord = length f" unfolding priority_scheduling_def by (rule np_schedule_lengths)
next
  fix x f ord assume "round_robin schedule = Some (x, Schedule f ord)"
  then show "length ord = length f" by (rule round_robin_lengths)
qed

theorem order_finish_same_length_witness:
  "snd (fcfs \<lparr>processes = [Process 1 0 5 0, Process 2 2 3 0], quantum = Some 2\<rparr>)
      = Schedule [5, 8] [1, 2]
   \<and> sjf \<lparr>processes = [Process 1 0 5 0, Process 2 2 3 0], quantum = Some 2\<rparr>
      = Some (\<lparr>processes = [Process 1 0 5 0, Process 2 2 3 0], quantum = Some 2\<rparr>,
              Schedule [5, 8] [1, 2])
   \<and> priority_scheduling \<lparr>processes = [Process 1 0 5 0, Process 2 2 3 0], quantum = Some 2\<rparr>
      = Some (\<lparr>processes = [Process 1 0 5 0, Process 2 2 3 0], quantum = Some 2\<rparr>,
              Schedule [5, 8] [1, 2])
   \<and> round_robin \<lparr>processes = [Process 1 0 5 0, Process 2 2 3 0], quantum = Some 2\<rparr>
      = Some (\<lparr>processes = [Process 1 0 5 0, Process 2 2 3 0], quantum = Some 2\<rparr>,
              Schedule [2, 4, 6, 7, 8] [1, 2, 1, 2, 1])
   \<and> length [1, 2 :: int] = length [5, 8 :: int]
   \<and> length [1, 2, 1, 2, 1 :: int] = length [2, 4, 6, 7, 8 :: int]"
  using order_finish_same_length
    [of "\<lparr>processes = [Process 1 0 5 0, Process 2 2 3 0], quantum = Some 2\<rparr>"]
  by (simp add: fcfs_def sjf_def priority_scheduling_def np_schedule_def np_cond_def np_body_def
      np_init_def available_def py_min_def round_robin_def rr_init_def make_dict_def rr_cond_def
      rr_body_def admit_def admit_new_def lookup_def while_loop.simps)

lemma missing_quantum_is_reported:
  "quantum schedule = None \<Longrightarrow>
     round_robin schedule =
       Some (schedule, Error ''Quantum must be provided for Round Robin scheduling'')"
  by (simp add: round_robin_def)

lemma round_robin_diverges:
  assumes "valid_batch (processes schedule)" and "processes schedule \<noteq> []"
    and "quantum schedule = Some q" and "q \<le> 0"
  shows "round_robin schedule = None"
proof -
  have "set (sort_key arrival (processes schedule)) = set (processes schedule)" by simp
  from rr_loop_diverges[OF assms(1,2,4) this] assms(3) show ?thesis
    by (simp add: round_robin_def Let_def)
qed

text \<open>
  Claim C1 fails on the code. A quantum that is present is never rejected, whatever its
  sign: with quantum 0 or -1 the empty batch is answered with an (empty) schedule, and
  with quantum 0 the batch of the single row \<open>(1, 0, 1, 0)\<close> is not answered at all: the
  loop runs for ever.
\<close>

theorem nonpositive_quantum_not_rejected:
  "round_robin \<lparr>processes = [], quantum = Some 0\<rparr>
      = Some (\<lparr>processes = [], quantum = Some 0\<rparr>, Schedule [] [])
   \<and> round_robin \<lparr>processes = [], quantum = Some (- 1)\<rparr>
      = Some (\<lparr>processes = [], quantum = Some (- 1)\<rparr>, Schedule [] [])
   \<and> round_robin \<lparr>processes = [Process 1 0 1 0], quantum = Some 0\<rparr> = None"
proof -
  have "round_robin \<lparr>processes = [Process 1 0 1 0], quantum = Some 0\<rparr> = None"
    by (rule round_robin_diverges[where q = 0]) (simp_all add: valid_batch_def)
  then show ?thesis
    by (simp add: round_robin_def rr_init_def make_dict_def rr_cond_def while_loop.simps)
qed

text \<open>
  On a valid batch \<open>sjf\<close> and \<open>priority_scheduling\<close> terminate with a schedule, and so
  does \<open>round_robin\<close> when its quantum is positive (\<open>fcfs\<close> is a total function).
\<close>

lemma valid_requests_are_answered:
  assumes "valid_batch (processes schedule)"
  shows "\<exists>x f ord. sjf schedule = Some (x, Schedule f ord)"
    and "\<exists>x f ord. priority_scheduling schedule = Some (x, Schedule f ord)"
    and "quantum schedule = Some q \<Longrightarrow> 0 < q \<Longrightarrow>
           \<exists>f ord. round_robin schedule = Some (schedule, Schedule f ord)"
proof -
  from np_schedule_valid[OF assms, of burst]
  show "\<exists>x f ord. sjf schedule = Some (x, Schedule f ord)" unfolding sjf_def by blast
  from np_schedule_valid[OF assms, of priority]
  show "\<exists>x f ord. priority_scheduling schedule = Some (x, Schedule f ord)"
    unfolding priority_scheduling_def by blast
  show "\<exists>f ord. round_robin schedule = Some (schedule, Schedule f ord)"
    if "quantum schedule = Some q" "0 < q"
    using round_robin_valid[OF assms that] by blast
qed

text \<open>
  Claim C9 fails on the code for round robin. The operation accepts every quantum that is
  present; when that quantum is zero or negative and the batch is valid and not empty,
  \<open>round_robin\<close> does not terminate.
\<close>

theorem round_robin_accepted_quantum_may_diverge:
  assumes "valid_batch (processes schedule)" and "processes schedule \<noteq> []"
    and "quantum schedule = Some q" and "q \<le> 0"
  shows "round_robin schedule \<noteq> Some (schedule, Error ''Quantum must be provided for Round Robin scheduling'')
    \<and> round_robin schedule = None"
  using round_robin_diverges[OF assms] by simp

theorem round_robin_accepted_quantum_may_diverge_witness:
  "valid_batch (processes \<lparr>processes = [Process 1 0 5 0, Process 2 1 3 0], quantum = Some (- 2)\<rparr>)
   \<and> processes \<lparr>processes = [Process 1 0 5 0, Process 2 1 3 0], quantum = Some (- 2)\<rparr> \<noteq> []
   \<and> quantum \<lparr>processes = [Process 1 0 5 0, Process 2 1 3 0], quantum = Some (- 2)\<rparr> = Some (- 2)
   \<and> (- 2 :: int) \<le> 0
   \<and> round_robin \<lparr>processes = [Process 1 0 5 0, Process 2 1 3 0], quantum = Some (- 2)\<rparr> = None"
  using round_robin_accepted_quantum_may_diverge
    [of "\<lparr>processes = [Process 1 0 5 0, Process 2 1 3 0], quantum = Some (- 2)\<rparr>" "- 2"]
  by (simp add: valid_batch_def)

section \<open>Every process is dispatched\<close>

lemma round_robin_covers_pids:
  assumes "valid_batch (processes schedule)" and qu: "quantum schedule = Some q" and q: "0 < q"
  shows "\<exists>x f ord. round_robin schedule = Some (x, Schedule f ord)
               \<and> pid ` set (processes schedule) \<subseteq> set ord"
proof -
  let ?sp = "sort_key arrival (processes schedule)"
  from round_robin_valid[OF assms(1) qu q] obtain k where
    r: "round_robin schedule =
          Some (schedule, Schedule (rr_finish ((rr_body q ?sp ^^ k) (rr_init (processes schedule))))
                 (rr_order ((rr_body q ?sp ^^ k) (rr_init (processes schedule)))))"
    and inv: "rr_inv (processes schedule) q ((rr_body q ?sp ^^ k) (rr_init (processes schedule)))"
    and c: "rr_completed ((rr_body q ?sp ^^ k) (rr_init (processes schedule)))
              = pid ` set (processes schedule)" by blast
  have "pid ` set (processes schedule)
      \<subseteq> set (rr_order ((rr_body q ?sp ^^ k) (rr_init (processes schedule))))"
  proof
    fix i assume "i \<in> pid ` set (processes schedule)"
    then obtain p where p: "p \<in> set (processes schedule)" "i = pid p" by blast
    from p(1) assms(1) have "0 < burst p" by (simp add: valid_batch_def)
    from ceil_div_pos[OF this q] rr_final_counts(2)[OF inv c p(1)]
    have "count_list (rr_order ((rr_body q ?sp ^^ k) (rr_init (processes schedule)))) (pid p) \<noteq> 0"
      by linarith
    then show "i \<in> set (rr_order ((rr_body q ?sp ^^ k) (rr_init (processes schedule))))"
      using p(2) by (simp add: count_list_0_iff)
  qed
  with r have "round_robin schedule =
          Some (schedule, Schedule (rr_finish ((rr_body q ?sp ^^ k) (rr_init (processes schedule))))
                 (rr_order ((rr_body q ?sp ^^ k) (rr_init (processes schedule)))))
      \<and> pid ` set (processes schedule)
          \<subseteq> set (rr_order ((rr_body q ?sp ^^ k) (rr_init (processes schedule))))" by (rule conjI)
  then show ?thesis by (intro exI)
qed

lemma round_robin_answer_covers_pids:
  assumes v: "valid_batch (processes schedule)"
    and r: "round_robin schedule = Some (x, Schedule f ord)"
  shows "pid ` set (processes schedule) \<subseteq> set ord"
proof (cases "quantum schedule")
  case None
  with r show ?thesis by (simp add: round_robin_def)
next
  case (Some q)
  show ?thesis
  proof (cases "0 < q")
    case True
    from round_robin_covers_pids[OF v Some True] r show ?thesis by auto
  next
    case False
    show ?thesis
    proof (cases "processes schedule = []")
      case True
      then show ?thesis by simp
    next
      case ne: False
      from round_robin_diverges[OF v ne Some] False r show ?thesis by simp
    qed
  qed
qed

text \<open>
  Without unique ids the two ways of tracking completion part: of two rows with the id 1,
  once the first is completed the second is still eligible for the code, and not by id.
\<close>

lemma row_lookup_is_not_id_lookup:
  "available [Process 1 0 1 0, Process 1 0 2 0]
      \<lparr>np_time = 1, np_completed = [Process 1 0 1 0], np_order = [1], np_finish = [1]\<rparr>
     = [Process 1 0 2 0]
   \<and> available_by_id [Process 1 0 1 0, Process 1 0 2 0]
      \<lparr>np_time = 1, np_completed = [Process 1 0 1 0], np_order = [1], np_finish = [1]\<rparr>
     = []"
  by (simp add: available_def available_by_id_def)

text \<open>
  Claim C3. For a valid batch, also one where rows with different ids agree on arrival,
  burst and priority, every operation dispatches every process id of the batch at least
  once: \<open>fcfs\<close>, \<open>sjf\<close> and \<open>priority_scheduling\<close> always, \<open>round_robin\<close> whenever
  its quantum is positive, and in any schedule that it answers with. \<open>sjf\<close> and \<open>priority_scheduling\<close>
  look a row up in the list \<open>completed\<close> of rows; in every state that their loop reaches
  the rows found eligible that way are exactly the rows found eligible by process id
  (\<open>round_robin\<close> keeps a set of ids).
\<close>

theorem every_pid_is_dispatched:
  assumes "valid_batch (processes schedule)"
  shows "(\<exists>f ord. snd (fcfs schedule) = Schedule f ord
            \<and> pid ` set (processes schedule) \<subseteq> set ord) \<and>
         (\<exists>x f ord. sjf schedule = Some (x, Schedule f ord)
            \<and> pid ` set (processes schedule) \<subseteq> set ord) \<and>
         (\<exists>x f ord. priority_scheduling schedule = Some (x, Schedule f ord)
            \<and> pid ` set (processes schedule) \<subseteq> set ord) \<and>
         (\<forall>q. quantum schedule = Some q \<longrightarrow> 0 < q \<longrightarrow>
            (\<exists>x f ord. round_robin schedule = Some (x, Schedule f ord)
               \<and> pid ` set (processes schedule) \<subseteq> set ord)) \<and>
         (\<forall>x f ord. round_robin schedule = Some (x, Schedule f ord)
            \<longrightarrow> pid ` set (processes schedule) \<subseteq> set ord) \<and>
         (\<forall>key k.
            available (sort_key arrival (processes schedule))
              ((np_body key (sort_key arrival (processes schedule)) ^^ k) np_init)
            = available_by_id (sort_key arrival (processes schedule))
              ((np_body key (sort_key arrival (processes schedule)) ^^ k) np_init))"
proof (intro conjI allI impI)
  from fcfs_result[of schedule] obtain f where
    "snd (fcfs schedule) = Schedule f (map pid (sort_key arrival (processes schedule)))" by blast
  moreover have "pid ` set (processes schedule)
      \<subseteq> set (map pid (sort_key arrival (processes schedule)))" by simp
  ultimately have "snd (fcfs schedule) = Schedule f (map pid (sort_key arrival (processes schedule)))
            \<and> pid ` set (processes schedule)
                \<subseteq> set (map pid (sort_key arrival (processes schedule)))" by (rule conjI)
  then show "\<exists>f ord. snd (fcfs schedule) = Schedule f ord
            \<and> pid ` set (processes schedule) \<subseteq> set ord" by (intro exI)
next
  from np_schedule_counts[OF assms, of burst] obtain x f ord where
    "np_schedule burst schedule = Some (x, Schedule f ord)"
    "pid ` set (processes schedule) = set ord" by blast
  then have "sjf schedule = Some (x, Schedule f ord)
            \<and> pid ` set (processes schedule) \<subseteq> set ord" by (simp add: sjf_def)
  then show "\<exists>x f ord. sjf schedule = Some (x, Schedule f ord)
            \<and> pid ` set (processes schedule) \<subseteq> set ord" by (intro exI)
next
  from np_schedule_counts[OF assms, of priority] obtain x f ord where
    "np_schedule priority schedule = Some (x, Schedule f ord)"
    "pid ` set (processes schedule) = set ord" by blast
  then have "priority_scheduling schedule = Some (x, Schedule f ord)
            \<and> pid ` set (processes schedule) \<subseteq> set ord" by (simp add: priority_scheduling_def)
  then show "\<exists>x f ord. priority_scheduling schedule = Some (x, Schedule f ord)
            \<and> pid ` set (processes schedule) \<subseteq> set ord" by (intro exI)
next
  fix q assume qu: "quantum schedule = Some q" and q: "0 < q"
  then show "\<exists>x f ord. round_robin schedule = Some (x, Schedule f ord)
               \<and> pid ` set (processes schedule) \<subseteq> set ord"
    by (rule round_robin_covers_pids[OF assms])
next
  fix x f ord assume "round_robin schedule = Some (x, Schedule f ord)"
  then show "pid ` set (processes schedule) \<subseteq> set ord"
    by (rule round_robin_answer_covers_pids[OF assms])
next
  fix key k
  let ?sp = "sort_key arrival (processes schedule)"
  have "set (np_completed ((np_body key ?sp ^^ k) np_init)) \<subseteq> set ?sp"
    using np_inv_funpow[where procs = ?sp and key = key and k = k] by (simp add: np_inv_def)
  from available_by_id_eq[OF valid_batch_sorted(2)[OF assms] this]
  show "available ?sp ((np_body key ?sp ^^ k) np_init)
      = available_by_id ?sp ((np_body key ?sp ^^ k) np_init)" by simp
qed

theorem every_pid_is_dispatched_witness:
  "valid_batch (processes \<lparr>processes = [Process 1 0 3 1, Process 2 0 3 1], quantum = Some 2\<rparr>)
   \<and> (\<exists>f ord. snd (fcfs \<lparr>processes = [Process 1 0 3 1, Process 2 0 3 1], quantum = Some 2\<rparr>)
           = Schedule f ord \<and> {1, 2} \<subseteq> set ord)
   \<and> (\<exists>x f ord. sjf \<lparr>processes = [Process 1 0 3 1, Process 2 0 3 1], quantum = Some 2\<rparr>
           = Some (x, Schedule f ord) \<and> {1, 2} \<subseteq> set ord)
   \<and> (\<exists>x f ord. priority_scheduling
             \<lparr>processes = [Process 1 0 3 1, Process 2 0 3 1], quantum = Some 2\<rparr>
           = Some (x, Schedule f ord) \<and> {1, 2} \<subseteq> set ord)
   \<and> (\<exists>x f ord. round_robin \<lparr>processes = [Process 1 0 3 1, Process 2 0 3 1], quantum = Some 2\<rparr>
           = Some (x, Schedule f ord) \<and> {1, 2} \<subseteq> set ord)"
proof -
  let ?c = "\<lparr>processes = [Process 1 0 3 1, Process 2 0 3 1], quantum = Some 2\<rparr>"
  have v: "valid_batch (processes ?c)"
    by (simp add: valid_batch_def)
  have p: "pid ` set (processes ?c) = {1, 2}" by simp
  note t = every_pid_is_dispatched[OF v, unfolded p]
  from t have rr: "\<forall>q. quantum ?c = Some q \<longrightarrow> 0 < q \<longrightarrow>
            (\<exists>x f ord. round_robin ?c = Some (x, Schedule f ord) \<and> {1, 2} \<subseteq> set ord)"
    by (elim conjE)
  have "quantum ?c = Some 2 \<longrightarrow> (0::int) < 2 \<longrightarrow>
            (\<exists>x f ord. round_robin ?c = Some (x, Schedule f ord) \<and> {1, 2} \<subseteq> set ord)"
    using rr by (rule spec)
  then have r: "\<exists>x f ord. round_robin ?c = Some (x, Schedule f ord) \<and> {1, 2} \<subseteq> set ord"
    by simp
  from t have a: "\<exists>f ord. snd (fcfs ?c) = Schedule f ord \<and> {1, 2} \<subseteq> set ord"
    by (elim conjE)
  from t have b: "\<exists>x f ord. sjf ?c = Some (x, Schedule f ord) \<and> {1, 2} \<subseteq> set ord"
    by (elim conjE)
  from t have c: "\<exists>x f ord. priority_scheduling ?c = Some (x, Schedule f ord) \<and> {1, 2} \<subseteq> set ord"
    by (elim conjE)
  from v a b c r show ?thesis by (intro conjI)
qed

section \<open>Events per process\<close>

text \<open>The quotient rounded up, in integer arithmetic.\<close>

lemma ceil_forms:
  fixes b q :: int
  assumes "0 < q"
  shows "- ((- b) div q) = (b + q - 1) div q"
proof -
  define k where "k = b div q"
  define r where "r = b mod q"
  have b: "b = q * k + r" by (simp add: k_def r_def)
  have r: "0 \<le> r" "r < q" using assms by (simp_all add: r_def)
  show ?thesis
  proof (cases "r = 0")
    case True
    have "(- b) div q = - k"
      by (rule int_div_pos_eq[where r = 0]) (use b True assms in simp_all)
    moreover have "(b + q - 1) div q = k"
      by (rule int_div_pos_eq[where r = "q - 1"]) (use b True assms in simp_all)
    ultimately show ?thesis by simp
  next
    case False
    have "(- b) div q = - k - 1"
      by (rule int_div_pos_eq[where r = "q - r"]) (use b False r in \<open>simp_all add: algebra_simps\<close>)
    moreover have "(b + q - 1) div q = k + 1"
      by (rule int_div_pos_eq[where r = "r - 1"]) (use b False r in \<open>simp_all add: algebra_simps\<close>)
    ultimately show ?thesis by simp
  qed
qed

lemma ceiling_div:
  fixes b q :: int
  assumes "0 < q"
  shows "\<lceil>real_of_int b / real_of_int q\<rceil> = (b + q - 1) div q"
  using ceil_forms[OF assms, of b] by (simp add: ceiling_divide_eq_div)

lemma fcfs_counts:
  assumes v: "valid_batch (processes schedule)"
  shows "\<exists>f ord. snd (fcfs schedule) = Schedule f ord
          \<and> length ord = length (processes schedule)
          \<and> (\<forall>p\<in>set (processes schedule). count_list ord (pid p) = 1)"
proof -
  let ?ord = "map pid (sort_key arrival (processes schedule))"
  from fcfs_result[of schedule] obtain f where f: "snd (fcfs schedule) = Schedule f ?ord" by blast
  have "count_list ?ord (pid p) = 1" if "p \<in> set (processes schedule)" for p
    by (rule count_list_distinct[OF valid_batch_sorted(2)[OF v]]) (use that in simp)
  then have "snd (fcfs schedule) = Schedule f ?ord \<and> length ?ord = length (processes schedule)
          \<and> (\<forall>p\<in>set (processes schedule). count_list ?ord (pid p) = 1)"
    using f by simp
  then show ?thesis by (intro exI)
qed

text \<open>
  Claim C8. For a valid batch, \<open>fcfs\<close>, \<open>sjf\<close> and \<open>priority_scheduling\<close> answer with
  as many events as there are processes, one for each process id. \<open>round_robin\<close> with a
  quantum \<open>q > 0\<close> answers after some number \<open>k\<close> of loop iterations; every event is of a
  process of the batch, and for each process the number of its events is its burst
  divided by \<open>q\<close>, rounded up, the lengths of its slices add up to its burst, and its
  remaining time is 0 at the end.
\<close>

theorem events_per_process:
  assumes "valid_batch (processes schedule)"
  shows "(\<exists>f ord. snd (fcfs schedule) = Schedule f ord
            \<and> length ord = length (processes schedule)
            \<and> (\<forall>p\<in>set (processes schedule). count_list ord (pid p) = 1)) \<and>
         (\<exists>x f ord. sjf schedule = Some (x, Schedule f ord)
            \<and> length ord = length (processes schedule)
            \<and> (\<forall>p\<in>set (processes schedule). count_list ord (pid p) = 1)) \<and>
         (\<exists>x f ord. priority_scheduling schedule = Some (x, Schedule f ord)
            \<and> length ord = length (processes schedule)
            \<and> (\<forall>p\<in>set (processes schedule). count_list ord (pid p) = 1)) \<and>
         (\<forall>q. quantum schedule = Some q \<longrightarrow> 0 < q \<longrightarrow>
            (\<exists>k f ord. round_robin schedule = Some (schedule, Schedule f ord)
               \<and> f = rr_finish ((rr_body q (sort_key arrival (processes schedule)) ^^ k)
                        (rr_init (processes schedule)))
               \<and> ord = rr_order ((rr_body q (sort_key arrival (processes schedule)) ^^ k)
                        (rr_init (processes schedule)))
               \<and> set ord \<subseteq> pid ` set (processes schedule)
               \<and> (\<forall>p\<in>set (processes schedule).
                     int (count_list ord (pid p)) = \<lceil>real_of_int (burst p) / real_of_int q\<rceil>
                   \<and> rr_executed q (sort_key arrival (processes schedule))
                        (rr_init (processes schedule)) k (pid p) = burst p
                   \<and> rr_remaining ((rr_body q (sort_key arrival (processes schedule)) ^^ k)
                        (rr_init (processes schedule))) (pid p) = 0)))"
proof (intro conjI allI impI)
  show "\<exists>f ord. snd (fcfs schedule) = Schedule f ord
            \<and> length ord = length (processes schedule)
            \<and> (\<forall>p\<in>set (processes schedule). count_list ord (pid p) = 1)"
    by (rule fcfs_counts[OF assms])
next
  from np_schedule_counts[OF assms, of burst] obtain x f ord where
    "np_schedule burst schedule = Some (x, Schedule f ord)"
    "length ord = length (processes schedule)"
    "\<forall>p\<in>set (processes schedule). count_list ord (pid p) = 1" by blast
  then have "sjf schedule = Some (x, Schedule f ord)
            \<and> length ord = length (processes schedule)
            \<and> (\<forall>p\<in>set (processes schedule). count_list ord (pid p) = 1)"
    by (simp add: sjf_def)
  then show "\<exists>x f ord. sjf schedule = Some (x, Schedule f ord)
            \<and> length ord = length (processes schedule)
            \<and> (\<forall>p\<in>set (processes schedule). count_list ord (pid p) = 1)" by (intro exI)
next
  from np_schedule_counts[OF assms, of priority] obtain x f ord where
    "np_schedule priority schedule = Some (x, Schedule f ord)"
    "length ord = length (processes schedule)"
    "\<forall>p\<in>set (processes schedule). count_list ord (pid p) = 1" by blast
  then have "priority_scheduling schedule = Some (x, Schedule f ord)
            \<and> length ord = length (processes schedule)
            \<and> (\<forall>p\<in>set (processes schedule). count_list ord (pid p) = 1)"
    by (simp add: priority_scheduling_def)
  then show "\<exists>x f ord. priority_scheduling schedule = Some (x, Schedule f ord)
            \<and> length ord = length (processes schedule)
            \<and> (\<forall>p\<in>set (processes schedule). count_list ord (pid p) = 1)" by (intro exI)
next
  fix q assume qu: "quantum schedule = Some q" and q: "0 < q"
  let ?procs = "processes schedule"
  let ?sp = "sort_key arrival ?procs"
  have sp: "set ?sp = set ?procs" by simp
  from round_robin_valid[OF assms qu q] obtain k where
    r: "round_robin schedule =
          Some (schedule, Schedule (rr_finish ((rr_body q ?sp ^^ k) (rr_init ?procs)))
                 (rr_order ((rr_body q ?sp ^^ k) (rr_init ?procs))))"
    and inv: "rr_inv ?procs q ((rr_body q ?sp ^^ k) (rr_init ?procs))"
    and c: "rr_completed ((rr_body q ?sp ^^ k) (rr_init ?procs)) = pid ` set ?procs" by blast
  have per: "int (count_list (rr_order ((rr_body q ?sp ^^ k) (rr_init ?procs))) (pid p))
        = \<lceil>real_of_int (burst p) / real_of_int q\<rceil>
      \<and> rr_executed q ?sp (rr_init ?procs) k (pid p) = burst p
      \<and> rr_remaining ((rr_body q ?sp ^^ k) (rr_init ?procs)) (pid p) = 0"
    if p: "p \<in> set ?procs" for p
    using rr_final_counts[OF inv c p] rr_executed_eq[OF assms q sp p, of k]
    by (simp add: ceiling_div[OF q])
  have "round_robin schedule =
          Some (schedule, Schedule (rr_finish ((rr_body q ?sp ^^ k) (rr_init ?procs)))
                 (rr_order ((rr_body q ?sp ^^ k) (rr_init ?procs))))
      \<and> rr_finish ((rr_body q ?sp ^^ k) (rr_init ?procs))
          = rr_finish ((rr_body q ?sp ^^ k) (rr_init ?procs))
      \<and> rr_order ((rr_body q ?sp ^^ k) (rr_init ?procs))
          = rr_order ((rr_body q ?sp ^^ k) (rr_init ?procs))
      \<and> set (rr_order ((rr_body q ?sp ^^ k) (rr_init ?procs))) \<subseteq> pid ` set ?procs
      \<and> (\<forall>p\<in>set ?procs.
            int (count_list (rr_order ((rr_body q ?sp ^^ k) (rr_init ?procs))) (pid p))
              = \<lceil>real_of_int (burst p) / real_of_int q\<rceil>
          \<and> rr_executed q ?sp (rr_init ?procs) k (pid p) = burst p
          \<and> rr_remaining ((rr_body q ?sp ^^ k) (rr_init ?procs)) (pid p) = 0)"
    using r rr_order_pids[OF assms q sp, of k] per by simp
  then show "\<exists>k f ord. round_robin schedule = Some (schedule, Schedule f ord)
               \<and> f = rr_finish ((rr_body q ?sp ^^ k) (rr_init ?procs))
               \<and> ord = rr_order ((rr_body q ?sp ^^ k) (rr_init ?procs))
               \<and> set ord \<subseteq> pid ` set ?procs
               \<and> (\<forall>p\<in>set ?procs.
                     int (count_list ord (pid p)) = \<lceil>real_of_int (burst p) / real_of_int q\<rceil>
                   \<and> rr_executed q ?sp (rr_init ?procs) k (pid p) = burst p
                   \<and> rr_remaining ((rr_body q ?sp ^^ k) (rr_init ?procs)) (pid p) = 0)"
    by (intro exI)
qed

theorem events_per_process_witness:
  "valid_batch (processes \<lparr>processes = [Process 1 0 5 0, Process 2 1 3 0], quantum = Some 2\<rparr>)
   \<and> (\<exists>f ord. snd (fcfs \<lparr>processes = [Process 1 0 5 0, Process 2 1 3 0], quantum = Some 2\<rparr>)
           = Schedule f ord \<and> length ord = 2 \<and> count_list ord 1 = 1 \<and> count_list ord 2 = 1)
   \<and> (\<exists>x f ord. sjf \<lparr>processes = [Process 1 0 5 0, Process 2 1 3 0], quantum = Some 2\<rparr>
           = Some (x, Schedule f ord) \<and> length ord = 2 \<and> count_list ord 1 = 1
           \<and> count_list ord 2 = 1)
   \<and> (\<exists>x f ord. priority_scheduling
             \<lparr>processes = [Process 1 0 5 0, Process 2 1 3 0], quantum = Some 2\<rparr>
           = Some (x, Schedule f ord) \<and> length ord = 2 \<and> count_list ord 1 = 1
           \<and> count_list ord 2 = 1)
   \<and> (\<exists>k f ord. round_robin \<lparr>processes = [Process 1 0 5 0, Process 2 1 3 0], quantum = Some 2\<rparr>
           = Some (\<lparr>processes = [Process 1 0 5 0, Process 2 1 3 0], quantum = Some 2\<rparr>,
                   Schedule f ord)
         \<and> int (count_list ord 1) = 3 \<and> int (count_list ord 2) = 2
         \<and> rr_executed 2 [Process 1 0 5 0, Process 2 1 3 0]
              (rr_init [Process 1 0 5 0, Process 2 1 3 0]) k 1 = 5
         \<and> rr_executed 2 [Process 1 0 5 0, Process 2 1 3 0]
              (rr_init [Process 1 0 5 0, Process 2 1 3 0]) k 2 = 3)"
proof -
  let ?c = "\<lparr>processes = [Process 1 0 5 0, Process 2 1 3 0], quantum = Some 2\<rparr>"
  have v: "valid_batch (processes ?c)"
    by (simp add: valid_batch_def)
  note t = events_per_process[OF v]
  from t have a: "\<exists>f ord. snd (fcfs ?c) = Schedule f ord
            \<and> length ord = length (processes ?c)
            \<and> (\<forall>p\<in>set (processes ?c). count_list ord (pid p) = 1)"
    by (elim conjE)
  from t have b: "\<exists>x f ord. sjf ?c = Some (x, Schedule f ord)
            \<and> length ord = length (processes ?c)
            \<and> (\<forall>p\<in>set (processes ?c). count_list ord (pid p) = 1)"
    by (elim conjE)
  from t have c: "\<exists>x f ord. priority_scheduling ?c = Some (x, Schedule f ord)
            \<and> length ord = length (processes ?c)
            \<and> (\<forall>p\<in>set (processes ?c). count_list ord (pid p) = 1)"
    by (elim conjE)
  from t have "\<forall>q. quantum ?c = Some q \<longrightarrow> 0 < q \<longrightarrow>
            (\<exists>k f ord. round_robin ?c = Some (?c, Schedule f ord)
               \<and> f = rr_finish ((rr_body q (sort_key arrival (processes ?c)) ^^ k)
                        (rr_init (processes ?c)))
               \<and> ord = rr_order ((rr_body q (sort_key arrival (processes ?c)) ^^ k)
                        (rr_init (processes ?c)))
               \<and> set ord \<subseteq> pid ` set (processes ?c)
               \<and> (\<forall>p\<in>set (processes ?c).
                     int (count_list ord (pid p)) = \<lceil>real_of_int (burst p) / real_of_int q\<rceil>
                   \<and> rr_executed q (sort_key arrival (processes ?c))
                        (rr_init (processes ?c)) k (pid p) = burst p
                   \<and> rr_remaining ((rr_body q (sort_key arrival (processes ?c)) ^^ k)
                        (rr_init (processes ?c))) (pid p) = 0))"
    by (elim conjE)
  then have "quantum ?c = Some 2 \<longrightarrow> (0::int) < 2 \<longrightarrow>
            (\<exists>k f ord. round_robin ?c = Some (?c, Schedule f ord)
               \<and> f = rr_finish ((rr_body 2 (sort_key arrival (processes ?c)) ^^ k)
                        (rr_init (processes ?c)))
               \<and> ord = rr_order ((rr_body 2 (sort_key arrival (processes ?c)) ^^ k)
                        (rr_init (processes ?c)))
               \<and> set ord \<subseteq> pid ` set (processes ?c)
               \<and> (\<forall>p\<in>set (processes ?c).
                     int (count_list ord (pid p)) = \<lceil>real_of_int (burst p) / real_of_int 2\<rceil>
                   \<and> rr_executed 2 (sort_key arrival (processes ?c))
                        (rr_init (processes ?c)) k (pid p) = burst p
                   \<and> rr_remaining ((rr_body 2 (sort_key arrival (processes ?c)) ^^ k)
                        (rr_init (processes ?c))) (pid p) = 0))"
    by (rule spec)
  then obtain k f ord where r: "round_robin ?c = Some (?c, Schedule f ord)"
    "\<forall>p\<in>set (processes ?c).
        int (count_list ord (pid p)) = \<lceil>real_of_int (burst p) / real_of_int 2\<rceil>
      \<and> rr_executed 2 (sort_key arrival (processes ?c)) (rr_init (processes ?c)) k (pid p) = burst p"
    by auto
  from r(2) have "int (count_list ord 1) = 3 \<and> int (count_list ord 2) = 2
         \<and> rr_executed 2 [Process 1 0 5 0, Process 2 1 3 0]
              (rr_init [Process 1 0 5 0, Process 2 1 3 0]) k 1 = 5
         \<and> rr_executed 2 [Process 1 0 5 0, Process 2 1 3 0]
              (rr_init [Process 1 0 5 0, Process 2 1 3 0]) k 2 = 3"
    by simp
  with r(1) have d: "\<exists>k f ord. round_robin ?c = Some (?c, Schedule f ord)
         \<and> int (count_list ord 1) = 3 \<and> int (count_list ord 2) = 2
         \<and> rr_executed 2 [Process 1 0 5 0, Process 2 1 3 0]
              (rr_init [Process 1 0 5 0, Process 2 1 3 0]) k 1 = 5
         \<and> rr_executed 2 [Process 1 0 5 0, Process 2 1 3 0]
              (rr_init [Process 1 0 5 0, Process 2 1 3 0]) k 2 = 3"
    by blast
  from a have a': "\<exists>f ord. snd (fcfs ?c) = Schedule f ord \<and> length ord = 2
      \<and> count_list ord 1 = 1 \<and> count_list ord 2 = 1" by (simp add: numeral_2_eq_2)
  from b have b': "\<exists>x f ord. sjf ?c = Some (x, Schedule f ord) \<and> length ord = 2
      \<and> count_list ord 1 = 1 \<and> count_list ord 2 = 1" by (simp add: numeral_2_eq_2)
  from c have c': "\<exists>x f ord. priority_scheduling ?c = Some (x, Schedule f ord) \<and> length ord = 2
      \<and> count_list ord 1 = 1 \<and> count_list ord 2 = 1" by (simp add: numeral_2_eq_2)
  from v a' b' c' d show ?thesis by (intro conjI)
qed

section \<open>The choice among the eligible rows\<close>

lemma index_of_filter_order:
  "distinct xs \<Longrightarrow> filter R xs = pre @ p # post \<Longrightarrow> x \<in> set post \<Longrightarrow>
     index_of xs p < index_of xs x"
proof (induction xs arbitrary: pre)
  case Nil
  then show ?case by simp
next
  case (Cons y ys)
  have in_ys: "p \<in> set (filter R ys) \<Longrightarrow> p \<noteq> y" "x \<in> set (filter R ys) \<Longrightarrow> x \<noteq> y"
    using Cons.prems(1) by auto
  show ?case
  proof (cases "R y")
    case False
    with Cons.prems have f: "filter R ys = pre @ p # post" by simp
    then have "p \<in> set (filter R ys)" "x \<in> set (filter R ys)" using Cons.prems(3) by simp_all
    with in_ys have "p \<noteq> y" "x \<noteq> y" by blast+
    moreover have "index_of ys p < index_of ys x"
      using Cons.IH[OF _ f Cons.prems(3)] Cons.prems(1) by simp
    ultimately show ?thesis by simp
  next
    case True
    with Cons.prems have f: "y # filter R ys = pre @ p # post" by simp
    show ?thesis
    proof (cases pre)
      case Nil
      with f have "p = y" "filter R ys = post" by simp_all
      with Cons.prems(3) have "x \<in> set (filter R ys)" by simp
      with in_ys have "x \<noteq> y" by blast
      with \<open>p = y\<close> show ?thesis by simp
    next
      case (Cons z pre')
      with f have f': "filter R ys = pre' @ p # post" by simp
      then have "p \<in> set (filter R ys)" "x \<in> set (filter R ys)" using Cons.prems(3) by simp_all
      with in_ys have "p \<noteq> y" "x \<noteq> y" by blast+
      moreover have "index_of ys p < index_of ys x"
        using Cons.IH[OF _ f' Cons.prems(3)] Cons.prems(1) by simp
      ultimately show ?thesis by simp
    qed
  qed
qed

text \<open>
  The choice of \<open>min\<close> among the eligible rows: it has the least key; among the rows
  with that key it arrived first; among those, it stands first in the caller's batch.
\<close>

lemma selection_order:
  fixes key :: "process \<Rightarrow> int"
  assumes d: "distinct procs" and av: "available (sort_key arrival procs) s = a # as"
    and x: "x \<in> set (a # as)" and ne: "x \<noteq> py_min key a as"
  shows "key (py_min key a as) < key x \<or>
         key (py_min key a as) = key x \<and>
           (arrival (py_min key a as) < arrival x \<or>
            arrival (py_min key a as) = arrival x \<and>
              index_of procs (py_min key a as) < index_of procs x)"
proof -
  define p where "p = py_min key a as"
  define A where "A = (\<lambda>p. arrival p \<le> np_time s \<and> p \<notin> set (np_completed s))"
  from py_min_first[of a as key] obtain pre post where
    split: "a # as = pre @ p # post" and pre: "\<forall>y\<in>set pre. key p < key y"
    and post: "\<forall>y\<in>set post. key p \<le> key y" unfolding p_def by blast
  have fil: "filter A (sort_key arrival procs) = pre @ p # post"
    using av split by (simp add: available_def A_def)
  from x split ne have "x \<in> set pre \<or> x \<in> set post" by (auto simp: p_def)
  then have "key p < key x \<or>
         key p = key x \<and> (arrival p < arrival x \<or>
            arrival p = arrival x \<and> index_of procs p < index_of procs x)"
  proof
    assume "x \<in> set pre"
    with pre show ?thesis by blast
  next
    assume xp: "x \<in> set post"
    have "sorted (map arrival (filter A (sort_key arrival procs)))"
      by (rule sorted_filter) (rule sorted_sort_key)
    then have "sorted (map arrival (pre @ p # post))" by (simp only: fil)
    then have arr: "arrival p \<le> arrival x" using xp by (auto simp: sorted_append)
    have idx: "index_of procs p < index_of procs x" if eq: "arrival p = arrival x"
    proof -
      let ?m = "arrival p"
      have "filter (\<lambda>y. arrival y = ?m) (filter A (sort_key arrival procs))
          = filter (\<lambda>y. arrival y = ?m) pre @ p # filter (\<lambda>y. arrival y = ?m) post"
        by (simp add: fil)
      moreover have "filter (\<lambda>y. arrival y = ?m) (filter A (sort_key arrival procs))
          = filter A (filter (\<lambda>y. arrival y = ?m) (sort_key arrival procs))"
        by (simp add: conj_commute)
      moreover have "filter (\<lambda>y. arrival y = ?m) (sort_key arrival procs)
          = filter (\<lambda>y. arrival y = ?m) procs" by (rule sort_key_stable)
      ultimately have "filter (\<lambda>y. arrival y = ?m \<and> A y) procs
          = filter (\<lambda>y. arrival y = ?m) pre @ p # filter (\<lambda>y. arrival y = ?m) post"
        by simp
      moreover have "x \<in> set (filter (\<lambda>y. arrival y = ?m) post)" using xp eq by simp
      ultimately show ?thesis by (rule index_of_filter_order[OF d])
    qed
    from post xp have "key p \<le> key x" by blast
    with arr idx show ?thesis by fastforce
  qed
  then show ?thesis by (simp add: p_def)
qed

lemma np_body_dispatch:
  "available procs s = a # as \<Longrightarrow>
     np_order (np_body key procs s) = np_order s @ [pid (py_min key a as)] \<and>
     np_completed (np_body key procs s) = np_completed s @ [py_min key a as] \<and>
     np_time (np_body key procs s) = np_time s + burst (py_min key a as)"
  by (simp add: np_body_def Let_def)

text \<open>
  Claim C6, as amended. At a decision point of \<open>sjf\<close> on a valid batch, where the
  eligible rows (arrived, not completed) are \<open>a # as\<close>, the row that is dispatched is
  eligible and comes strictly before every other eligible row in this order: smaller
  burst; for equal bursts, earlier arrival; for equal bursts and arrivals, earlier
  position in the batch as the caller passed it (not: smaller process id).
  \<open>priority_scheduling\<close> does the same with the priority in place of the burst. The
  order is total on the rows of a valid batch, since no two of them share a position.
\<close>

theorem selection_tie_break:
  assumes "valid_batch procs" and "available (sort_key arrival procs) s = a # as"
  shows "py_min burst a as \<in> set (a # as) \<and>
         np_order (np_body burst (sort_key arrival procs) s)
           = np_order s @ [pid (py_min burst a as)] \<and>
         (\<forall>x\<in>set (a # as). x \<noteq> py_min burst a as \<longrightarrow>
            burst (py_min burst a as) < burst x \<or>
            burst (py_min burst a as) = burst x \<and>
              (arrival (py_min burst a as) < arrival x \<or>
               arrival (py_min burst a as) = arrival x \<and>
                 index_of procs (py_min burst a as) < index_of procs x)) \<and>
         py_min priority a as \<in> set (a # as) \<and>
         np_order (np_body priority (sort_key arrival procs) s)
           = np_order s @ [pid (py_min priority a as)] \<and>
         (\<forall>x\<in>set (a # as). x \<noteq> py_min priority a as \<longrightarrow>
            priority (py_min priority a as) < priority x \<or>
            priority (py_min priority a as) = priority x \<and>
              (arrival (py_min priority a as) < arrival x \<or>
               arrival (py_min priority a as) = arrival x \<and>
                 index_of procs (py_min priority a as) < index_of procs x))"
proof -
  have d: "distinct procs" using assms(1) by (simp add: valid_batch_def distinct_map)
  note o = selection_order[OF d assms(2)]
  show ?thesis
  proof (intro conjI ballI impI)
    show "py_min burst a as \<in> set (a # as)" by (rule py_min_in)
    show "py_min priority a as \<in> set (a # as)" by (rule py_min_in)
    show "np_order (np_body burst (sort_key arrival procs) s)
           = np_order s @ [pid (py_min burst a as)]"
      using np_body_dispatch[OF assms(2)] by simp
    show "np_order (np_body priority (sort_key arrival procs) s)
           = np_order s @ [pid (py_min priority a as)]"
      using np_body_dispatch[OF assms(2)] by simp
  next
    fix x assume "x \<in> set (a # as)" "x \<noteq> py_min burst a as"
    then show "burst (py_min burst a as) < burst x \<or>
            burst (py_min burst a as) = burst x \<and>
              (arrival (py_min burst a as) < arrival x \<or>
               arrival (py_min burst a as) = arrival x \<and>
                 index_of procs (py_min burst a as) < index_of procs x)" by (rule o)
  next
    fix x assume "x \<in> set (a # as)" "x \<noteq> py_min priority a as"
    then show "priority (py_min priority a as) < priority x \<or>
            priority (py_min priority a as) = priority x \<and>
              (arrival (py_min priority a as) < arrival x \<or>
               arrival (py_min priority a as) = arrival x \<and>
                 index_of procs (py_min priority a as) < index_of procs x)" by (rule o)
  qed
qed

theorem selection_tie_break_witness:
  "valid_batch [Process 2 0 3 0, Process 1 0 3 0]
   \<and> available (sort_key arrival [Process 2 0 3 0, Process 1 0 3 0]) np_init
       = [Process 2 0 3 0, Process 1 0 3 0]
   \<and> py_min burst (Process 2 0 3 0) [Process 1 0 3 0] = Process 2 0 3 0
   \<and> np_order (np_body burst (sort_key arrival [Process 2 0 3 0, Process 1 0 3 0]) np_init) = [2]
   \<and> index_of [Process 2 0 3 0, Process 1 0 3 0] (Process 2 0 3 0)
       < index_of [Process 2 0 3 0, Process 1 0 3 0] (Process 1 0 3 0)
   \<and> py_min priority (Process 2 0 3 0) [Process 1 0 3 0] = Process 2 0 3 0
   \<and> np_order (np_body priority (sort_key arrival [Process 2 0 3 0, Process 1 0 3 0]) np_init)
       = [2]"
  using selection_tie_break[of "[Process 2 0 3 0, Process 1 0 3 0]" np_init
      "Process 2 0 3 0" "[Process 1 0 3 0]"]
  by (simp add: valid_batch_def available_def np_init_def py_min_def)

text \<open>
  Claim C6 as stated fails: the rows \<open>(2, 0, 3, 0)\<close> and \<open>(1, 0, 3, 0)\<close>, passed in
  this order, are both eligible at time 0 and agree on burst, priority and arrival; \<open>sjf\<close>
  and \<open>priority_scheduling\<close> dispatch process 2 first, not the smaller id 1.
\<close>

theorem id_tie_break_counterexample:
  "available (sort_key arrival [Process 2 0 3 0, Process 1 0 3 0]) np_init
       = [Process 2 0 3 0, Process 1 0 3 0]
   \<and> sjf \<lparr>processes = [Process 2 0 3 0, Process 1 0 3 0], quantum = None\<rparr>
       = Some (\<lparr>processes = [Process 2 0 3 0, Process 1 0 3 0], quantum = None\<rparr>,
               Schedule [3, 6] [2, 1])
   \<and> priority_scheduling \<lparr>processes = [Process 2 0 3 0, Process 1 0 3 0], quantum = None\<rparr>
       = Some (\<lparr>processes = [Process 2 0 3 0, Process 1 0 3 0], quantum = None\<rparr>,
               Schedule [3, 6] [2, 1])"
  by (simp add: sjf_def priority_scheduling_def np_schedule_def np_cond_def np_body_def
      np_init_def available_def py_min_def while_loop.simps)

section \<open>Round robin: arrivals during a slice\<close>

text \<open>
  Claim C7. In a run of \<open>round_robin\<close> on a valid batch with a positive quantum, take
  the state \<open>s\<close> at the start of any iteration in which a process \<open>cur\<close> is taken from the
  head of the queue and has more than a quantum of work left. Every process whose arrival
  time lies after the start of the slice and not after its end is appended to the queue
  in that iteration, behind the processes already waiting and in front of \<open>cur\<close>, which
  is re-queued last.
\<close>

theorem arrivals_enter_before_requeue:
  assumes "valid_batch procs" and "0 < q"
    and "s = (rr_body q (sort_key arrival procs) ^^ k) (rr_init procs)"
    and "admit (rr_dict s) (rr_time s) (rr_completed s) (sort_key arrival procs) (rr_queue s)
           = cur # rest"
    and "q < rr_remaining s cur"
    and "p \<in> set procs" and "rr_time s < arrival p"
    and "arrival p \<le> rr_time (rr_body q (sort_key arrival procs) s)"
  shows "\<exists>new. rr_queue (rr_body q (sort_key arrival procs) s) = rest @ new @ [cur]
           \<and> pid p \<in> set new \<and> cur \<notin> set (rest @ new)"
proof -
  let ?sp = "sort_key arrival procs"
  let ?s' = "rr_body q ?sp s"
  have sp: "set ?sp = set procs" by simp
  have inv: "rr_inv procs q s" unfolding assms(3) by (rule rr_inv_funpow[OF assms(1,2) sp])
  have inv': "rr_inv procs q ?s'" by (rule rr_inv_body[OF inv assms(1,2) sp])
  note facts = rr_dispatch_facts[OF inv assms(1) sp assms(4)]
  note b = rr_body_dispatch[OF assms(4), of q]
  have e: "min q (rr_remaining s cur) = q" using assms(5) by simp
  have stay: "0 < rr_remaining s cur - min q (rr_remaining s cur)" using assms(5) e by simp
  define queue3 where "queue3 = admit (rr_dict ?s') (rr_time ?s') (insert cur (rr_completed s)) ?sp rest"
  have q': "rr_queue ?s' = queue3 @ [cur]"
    using b(5) stay by (simp add: queue3_def b(1,2))
  from admit_append[of "rr_dict ?s'" "rr_time ?s'" "insert cur (rr_completed s)" ?sp rest]
  obtain new where new: "queue3 = rest @ new" unfolding queue3_def by blast
  have inj: "inj_on pid (set procs)" using assms(1) by (simp add: valid_batch_def distinct_map)
  from facts(1) obtain pc where pc: "pc \<in> set procs" "pid pc = cur" "arrival pc \<le> rr_time s"
    by blast
  have "p \<noteq> pc" using pc(3) assms(7) by auto
  with inj assms(6) pc(1,2) have ncur: "pid p \<noteq> cur" by (auto simp: inj_on_def)
  have ncomp: "pid p \<notin> rr_completed s"
    using rr_invD(6)[OF inv assms(6)] assms(7) by auto
  have nrest: "pid p \<notin> set rest" using facts(8)[OF assms(6)] assms(7) by auto
  have "pid p \<in> set queue3"
    unfolding queue3_def admit_set
    using assms(6,8) rr_inv_arrival[OF inv' assms(6)] ncur ncomp sp by auto
  with new nrest have "pid p \<in> set new" by simp
  moreover have "cur \<notin> set queue3"
    using rr_invD(10)[OF inv'] by (simp add: q')
  ultimately have "rr_queue ?s' = rest @ new @ [cur] \<and> pid p \<in> set new \<and> cur \<notin> set (rest @ new)"
    using q' new by simp
  then show ?thesis by (intro exI)
qed

theorem arrivals_enter_before_requeue_witness:
  "valid_batch [Process 1 0 5 0, Process 2 1 3 0] \<and> (0::int) < 2
   \<and> admit (rr_dict (rr_init [Process 1 0 5 0, Process 2 1 3 0])) 0 {}
        (sort_key arrival [Process 1 0 5 0, Process 2 1 3 0]) [] = [1]
   \<and> 2 < rr_remaining (rr_init [Process 1 0 5 0, Process 2 1 3 0]) 1
   \<and> rr_time (rr_init [Process 1 0 5 0, Process 2 1 3 0]) < arrival (Process 2 1 3 0)
   \<and> arrival (Process 2 1 3 0)
       \<le> rr_time (rr_body 2 (sort_key arrival [Process 1 0 5 0, Process 2 1 3 0])
                   (rr_init [Process 1 0 5 0, Process 2 1 3 0]))
   \<and> (\<exists>new. rr_queue (rr_body 2 (sort_key arrival [Process 1 0 5 0, Process 2 1 3 0])
                   (rr_init [Process 1 0 5 0, Process 2 1 3 0])) = [] @ new @ [1]
          \<and> 2 \<in> set new \<and> 1 \<notin> set ([] @ new))"
  using arrivals_enter_before_requeue[of "[Process 1 0 5 0, Process 2 1 3 0]" 2
      "rr_init [Process 1 0 5 0, Process 2 1 3 0]" 0 1 "[]" "Process 2 1 3 0"]
  by (simp add: valid_batch_def rr_init_def make_dict_def rr_body_def admit_def admit_new_def
      lookup_def rr_remaining_def)

section \<open>Round robin: the keys of the dictionary\<close>

lemma dom_make_dict_fold:
  "dom (fold (\<lambda>p d. d(pid p \<mapsto> \<lparr>d_arrival = arrival p, d_burst = burst p,
                              d_priority = priority p, d_remaining = burst p\<rparr>)) xs d)
     = dom d \<union> pid ` set xs"
  by (induction xs arbitrary: d) auto

text \<open>
  No \<open>KeyError\<close>: for every request and every quantum, in every state of the loop of
  \<open>round_robin\<close> the keys of \<open>process_dict\<close> are the pids of the rows, and the queue
  holds such pids only.
\<close>

lemma rr_keys:
  assumes "set sp = set procs"
  shows "dom (rr_dict ((rr_body q sp ^^ k) (rr_init procs))) = pid ` set procs \<and>
         set (rr_queue ((rr_body q sp ^^ k) (rr_init procs))) \<subseteq> pid ` set procs"
proof (induction k)
  case 0
  show ?case by (simp add: rr_init_def make_dict_def dom_make_dict_fold)
next
  case (Suc k)
  define s where "s = (rr_body q sp ^^ k) (rr_init procs)"
  from Suc.IH have IH: "dom (rr_dict s) = pid ` set procs" "set (rr_queue s) \<subseteq> pid ` set procs"
    by (simp_all add: s_def)
  have adm: "set (admit d t c sp queue) \<subseteq> pid ` set procs"
    if "set queue \<subseteq> pid ` set procs" for d t c queue
    using that assms unfolding admit_set by auto
  have "dom (rr_dict (rr_body q sp s)) = pid ` set procs \<and>
         set (rr_queue (rr_body q sp s)) \<subseteq> pid ` set procs"
  proof (cases "admit (rr_dict s) (rr_time s) (rr_completed s) sp (rr_queue s)")
    case Nil
    with IH show ?thesis by (simp add: rr_body_idle[OF Nil])
  next
    case (Cons cur queue)
    from adm[OF IH(2), of "rr_dict s" "rr_time s" "rr_completed s"]
    have sub: "cur \<in> pid ` set procs" "set queue \<subseteq> pid ` set procs" by (simp_all add: Cons)
    have "dom (rr_dict (rr_body q sp s)) = pid ` set procs"
      using IH(1) sub(1) by (auto simp: rr_body_dispatch(2)[OF Cons])
    moreover have "set (rr_queue (rr_body q sp s)) \<subseteq> pid ` set procs"
      unfolding rr_body_dispatch(5)[OF Cons] using adm[OF sub(2)] sub(1) by simp
    ultimately show ?thesis by simp
  qed
  then show ?case by (simp add: s_def)
qed

end
